theory Spec2Isabelle
  imports Complex_Main
begin

section \<open>Tateisi readability score: the character scan\<close>

text \<open>
  The program is \<^verbatim>\<open>src/tateisi.py\<close>: a class \<^verbatim>\<open>Tateisi\<close> whose constructor scans a
  text once, counting letters and runs of four letter classes and two punctuation marks,
  and then derives ten statistics; two methods combine the statistics linearly.

  The source is read as Python 3: a string is a sequence of code points, and \<^verbatim>\<open>/\<close> is
  the true division, whose result is a float.

  A text is the list of its code points (\<^verbatim>\<open>ord(l)\<close> for each \<^verbatim>\<open>l\<close> of the string).
  The local variables of the constructor's loop are the fields of a record; Python's
  integers are unbounded, so the counters are of type \<^typ>\<open>int\<close>.
\<close>

type_synonym unicode_text = "nat list"

record counters =
  a :: int
  h :: int
  c :: int
  k :: int
  ar :: int
  hr :: int
  cr :: int
  kr :: int
  tt :: int
  tk :: int
  current_run :: string

text \<open>Lines 43--46: the initial vectors.\<close>

definition initial :: counters where
  "initial = \<lparr>a = 0, h = 0, c = 0, k = 0, ar = 0, hr = 0, cr = 0, kr = 0,
              tt = 0, tk = 0, current_run = ''''\<rparr>"

text \<open>
  Lines 48--88: the body of the loop for one character, an \<^verbatim>\<open>if\<close>/\<^verbatim>\<open>elif\<close> chain
  in the order of the source. The four \<^verbatim>\<open>continue\<close> branches and the fall-through
  of a character that matches no branch leave every variable as it is. The source
  compares \<^verbatim>\<open>l\<close> with the kuten U+3002 and the toten U+3001.
\<close>

definition step :: "counters \<Rightarrow> nat \<Rightarrow> counters" where
  "step s ord_l =
    (if (0x0041 \<le> ord_l \<and> ord_l \<le> 0x007A) \<or> (0xFF21 \<le> ord_l \<and> ord_l \<le> 0xFF5A) then
       (let s1 = (if current_run s \<noteq> ''a''
                  then s\<lparr>current_run := ''a'', ar := ar s + 1\<rparr> else s)
        in s1\<lparr>a := a s1 + 1\<rparr>)
     else if 0x3041 \<le> ord_l \<and> ord_l \<le> 0x3096 then
       (let s1 = (if current_run s \<noteq> ''h''
                  then s\<lparr>current_run := ''h'', hr := hr s + 1\<rparr> else s)
        in s1\<lparr>h := h s1 + 1\<rparr>)
     else if 0x30A1 \<le> ord_l \<and> ord_l \<le> 0x30FA then
       (let s1 = (if current_run s \<noteq> ''k''
                  then s\<lparr>current_run := ''k'', kr := kr s + 1\<rparr> else s)
        in s1\<lparr>k := k s1 + 1\<rparr>)
     else if 0x4E00 \<le> ord_l \<and> ord_l \<le> 0x9FBF then
       (let s1 = (if current_run s \<noteq> ''c''
                  then s\<lparr>current_run := ''c'', cr := cr s + 1\<rparr> else s)
        in s1\<lparr>c := c s1 + 1\<rparr>)
     else if ord_l = 0x3002 then s\<lparr>tk := tk s + 1\<rparr>
     else if ord_l = 0x3001 then s\<lparr>tt := tt s + 1\<rparr>
     else if 0x0021 \<le> ord_l \<and> ord_l \<le> 0x002F then s
     else if 0x0030 \<le> ord_l \<and> ord_l \<le> 0x0039 then s
     else if 0x003A \<le> ord_l \<and> ord_l \<le> 0x0040 then s
     else if 0x007B \<le> ord_l \<and> ord_l \<le> 0x007E then s
     else s)"

text \<open>Line 47: the loop over the text, from a given state.\<close>

fun scan :: "counters \<Rightarrow> unicode_text \<Rightarrow> counters" where
  "scan s [] = s"
| "scan s (l # txt) = scan (step s l) txt"

subsection \<open>The classification in the words of the specification\<close>

text \<open>
  The specification describes the loop body as a classification of the code point into
  one of seven classes, the ranges of its data model tried in a fixed order and the first
  match taken, followed by an action that depends on the class only (steps 1 to 5 of its
  algorithm): a letter begins a run of its class unless the current run is of that class,
  and counts as a letter of the class; a kuten or a toten is counted; any other
  character is ignored. \<open>char_class\<close> and \<open>on_class\<close> follow these words; they are
  compared with \<^const>\<open>step\<close> below.
\<close>

datatype CharacterClass =
  Alphabet | Hiragana | Katakana | Kanji | KutenPunctuation | TotenPunctuation | Other

definition first_match :: "(bool \<times> CharacterClass) list \<Rightarrow> CharacterClass" where
  "first_match ps = (case filter fst ps of [] \<Rightarrow> Other | p # _ \<Rightarrow> snd p)"

definition char_class :: "nat \<Rightarrow> CharacterClass" where
  "char_class cp = first_match
     [((0x0041 \<le> cp \<and> cp \<le> 0x007A) \<or> (0xFF21 \<le> cp \<and> cp \<le> 0xFF5A), Alphabet),
      (0x3041 \<le> cp \<and> cp \<le> 0x3096, Hiragana),
      (0x30A1 \<le> cp \<and> cp \<le> 0x30FA, Katakana),
      (0x4E00 \<le> cp \<and> cp \<le> 0x9FBF, Kanji),
      (cp = 0x3002, KutenPunctuation),
      (cp = 0x3001, TotenPunctuation)]"

definition is_letter_class :: "CharacterClass \<Rightarrow> bool" where
  "is_letter_class cl = (cl = Alphabet \<or> cl = Hiragana \<or> cl = Katakana \<or> cl = Kanji)"

definition begin_or_extend ::
  "string \<Rightarrow> ((int \<Rightarrow> int) \<Rightarrow> counters \<Rightarrow> counters) \<Rightarrow>
   ((int \<Rightarrow> int) \<Rightarrow> counters \<Rightarrow> counters) \<Rightarrow> counters \<Rightarrow> counters" where
  "begin_or_extend tag upd_runs upd_chars s =
     upd_chars (\<lambda>n. n + 1)
       (if current_run s \<noteq> tag then upd_runs (\<lambda>n. n + 1) (s\<lparr>current_run := tag\<rparr>) else s)"

fun on_class :: "CharacterClass \<Rightarrow> counters \<Rightarrow> counters" where
  "on_class Alphabet s = begin_or_extend ''a'' ar_update a_update s"
| "on_class Hiragana s = begin_or_extend ''h'' hr_update h_update s"
| "on_class Katakana s = begin_or_extend ''k'' kr_update k_update s"
| "on_class Kanji s = begin_or_extend ''c'' cr_update c_update s"
| "on_class KutenPunctuation s = s\<lparr>tk := tk s + 1\<rparr>"
| "on_class TotenPunctuation s = s\<lparr>tt := tt s + 1\<rparr>"
| "on_class Other s = s"

text \<open>
  The run-tracking state: the four letter counters, the four run counters and the class
  of the run being extended. The two punctuation counters are not part of it.
\<close>

definition run_state ::
  "counters \<Rightarrow> (int \<times> int \<times> int \<times> int) \<times> (int \<times> int \<times> int \<times> int) \<times> string" where
  "run_state s = ((a s, h s, c s, k s), (ar s, hr s, cr s, kr s), current_run s)"

section \<open>Python's floating-point numbers\<close>

text \<open>
  The statistics are Python floats: IEEE 754 binary64 numbers. A finite double is the
  rational number it denotes; the two infinities and the not-a-number are values of
  their own. The model does not tell \<^verbatim>\<open>-0.0\<close> from \<^verbatim>\<open>0.0\<close>: Python's \<^verbatim>\<open>==\<close> does
  not either, and the program never divides by a zero (that raises) nor prints the sign
  of a zero statistic.
\<close>

datatype pyfloat = Fin rat | PInf | NInf | NaN

text \<open>
  Rounding to the nearest double, ties to the even significand. \<^verbatim>\<open>bit_length\<close> is the
  number of binary digits of a natural number, \<open>ilog2 x\<close> the exponent \<open>e\<close> with
  \<open>2\<^sup>e \<le> x < 2\<^sup>e\<^sup>+\<^sup>1\<close> of a positive rational. A double has 53 significant bits, so
  the spacing of the doubles around \<open>x\<close> is \<open>2\<^sup>e\<^sup>-\<^sup>5\<^sup>2\<close>, and \<open>2\<^sup>-\<^sup>1\<^sup>0\<^sup>7\<^sup>4\<close> below the
  smallest normal number \<open>2\<^sup>-\<^sup>1\<^sup>0\<^sup>2\<^sup>2\<close>. A result that rounds to \<open>2\<^sup>1\<^sup>0\<^sup>2\<^sup>4\<close> or beyond
  overflows.
\<close>

fun bit_length :: "nat \<Rightarrow> nat" where
  "bit_length n = (if n = 0 then 0 else Suc (bit_length (n div 2)))"

declare bit_length.simps [simp del]

definition pow2 :: "int \<Rightarrow> rat" where
  "pow2 e = (if 0 \<le> e then 2 ^ nat e else 1 / 2 ^ nat (- e))"

definition ilog2 :: "rat \<Rightarrow> int" where
  "ilog2 x = (if 1 \<le> x then int (bit_length (nat \<lfloor>x\<rfloor>)) - 1
              else - int (bit_length (nat (\<lceil>1 / x\<rceil> - 1))))"

definition round_half_even :: "rat \<Rightarrow> int" where
  "round_half_even q =
     (let f = \<lfloor>q\<rfloor>; r = q - of_int f
      in if r < 1 / 2 then f else if 1 / 2 < r then f + 1 else if even f then f else f + 1)"

definition nearest_double :: "rat \<Rightarrow> rat" where
  "nearest_double x =
     (if x = 0 then 0
      else let e = max (ilog2 \<bar>x\<bar>) (- 1022) - 52
           in of_int (round_half_even (x / pow2 e)) * pow2 e)"

definition to_double :: "rat \<Rightarrow> pyfloat" where
  "to_double x =
     (let r = nearest_double x
      in if pow2 1024 \<le> r then PInf else if r \<le> - pow2 1024 then NInf else Fin r)"

text \<open>
  The arithmetic of floats: the exact result, rounded. With an infinity or a
  not-a-number among the operands the result follows IEEE 754. None of these four
  operations raises in Python; \<open>fdiv\<close> is used with a divisor other than zero only
  (see \<open>float_div\<close> below).
\<close>

fun fneg :: "pyfloat \<Rightarrow> pyfloat" where
  "fneg (Fin x) = Fin (- x)"
| "fneg PInf = NInf"
| "fneg NInf = PInf"
| "fneg NaN = NaN"

fun fadd :: "pyfloat \<Rightarrow> pyfloat \<Rightarrow> pyfloat" where
  "fadd (Fin x) (Fin y) = to_double (x + y)"
| "fadd NaN _ = NaN"
| "fadd _ NaN = NaN"
| "fadd PInf NInf = NaN"
| "fadd NInf PInf = NaN"
| "fadd PInf _ = PInf"
| "fadd _ PInf = PInf"
| "fadd NInf _ = NInf"
| "fadd _ NInf = NInf"

fun fsub :: "pyfloat \<Rightarrow> pyfloat \<Rightarrow> pyfloat" where
  "fsub (Fin x) (Fin y) = to_double (x - y)"
| "fsub NaN _ = NaN"
| "fsub _ NaN = NaN"
| "fsub PInf PInf = NaN"
| "fsub NInf NInf = NaN"
| "fsub PInf _ = PInf"
| "fsub _ NInf = PInf"
| "fsub NInf _ = NInf"
| "fsub _ PInf = NInf"

definition signed_inf :: "bool \<Rightarrow> pyfloat" where
  "signed_inf positive = (if positive then PInf else NInf)"

fun fmul :: "pyfloat \<Rightarrow> pyfloat \<Rightarrow> pyfloat" where
  "fmul (Fin x) (Fin y) = to_double (x * y)"
| "fmul NaN _ = NaN"
| "fmul _ NaN = NaN"
| "fmul (Fin x) PInf = (if x = 0 then NaN else signed_inf (0 < x))"
| "fmul (Fin x) NInf = (if x = 0 then NaN else signed_inf (x < 0))"
| "fmul PInf (Fin y) = (if y = 0 then NaN else signed_inf (0 < y))"
| "fmul NInf (Fin y) = (if y = 0 then NaN else signed_inf (y < 0))"
| "fmul PInf PInf = PInf"
| "fmul PInf NInf = NInf"
| "fmul NInf PInf = NInf"
| "fmul NInf NInf = PInf"

fun fdiv :: "pyfloat \<Rightarrow> pyfloat \<Rightarrow> pyfloat" where
  "fdiv (Fin x) (Fin y) = to_double (x / y)"
| "fdiv NaN _ = NaN"
| "fdiv _ NaN = NaN"
| "fdiv (Fin x) _ = Fin 0"
| "fdiv PInf (Fin y) = signed_inf (0 \<le> y)"
| "fdiv NInf (Fin y) = signed_inf (y < 0)"
| "fdiv _ _ = NaN"

text \<open>
  Python's \<^verbatim>\<open>/\<close> on integers and floats. An integer operand of a mixed division is
  converted to a float first, which raises \<^verbatim>\<open>OverflowError\<close> when the integer is too
  large; a zero divisor raises \<^verbatim>\<open>ZeroDivisionError\<close>; the quotient of two integers
  is the correctly rounded quotient, or \<^verbatim>\<open>OverflowError\<close> when that is too large.
  A float quotient that overflows is an infinity, without an exception.
\<close>

datatype error = ZeroDivisionError | OverflowError

datatype pynum = PyInt int | PyFloat pyfloat

definition finite_or_overflow :: "pyfloat \<Rightarrow> error + pyfloat" where
  "finite_or_overflow v = (case v of Fin r \<Rightarrow> Inr (Fin r) | _ \<Rightarrow> Inl OverflowError)"

definition int_to_float :: "int \<Rightarrow> error + pyfloat" where
  "int_to_float n = finite_or_overflow (to_double (of_int n))"

definition float_div :: "pyfloat \<Rightarrow> pyfloat \<Rightarrow> error + pyfloat" where
  "float_div x y = (if y = Fin 0 then Inl ZeroDivisionError else Inr (fdiv x y))"

fun truediv :: "pynum \<Rightarrow> pynum \<Rightarrow> error + pyfloat" where
  "truediv (PyInt m) (PyInt n) =
     (if n = 0 then Inl ZeroDivisionError
      else finite_or_overflow (to_double (of_int m / of_int n)))"
| "truediv (PyInt m) (PyFloat y) =
     (case int_to_float m of Inl e \<Rightarrow> Inl e | Inr x \<Rightarrow> float_div x y)"
| "truediv (PyFloat x) (PyInt n) =
     (case int_to_float n of Inl e \<Rightarrow> Inl e | Inr y \<Rightarrow> float_div x y)"
| "truediv (PyFloat x) (PyFloat y) = float_div x y"

text \<open>A float literal of the source denotes the double nearest to the decimal written.\<close>

definition lit :: "rat \<Rightarrow> pyfloat" where
  "lit x = to_double x"

text \<open>\<^verbatim>\<open>n or d\<close> for an integer \<open>n\<close>: \<open>n\<close> itself unless it is zero.\<close>

definition py_or :: "int \<Rightarrow> pyfloat \<Rightarrow> pynum" where
  "py_or n d = (if n \<noteq> 0 then PyInt n else PyFloat d)"

definition and_then :: "error + 'a \<Rightarrow> ('a \<Rightarrow> error + 'b) \<Rightarrow> error + 'b" where
  "and_then m f = (case m of Inl e \<Rightarrow> Inl e | Inr v \<Rightarrow> f v)"

section \<open>The statistics and the two scores\<close>

text \<open>
  The attributes of a \<^verbatim>\<open>Tateisi\<close> object that the two score methods read. The class
  gives each the default \<^verbatim>\<open>0\<close> (lines 36--39), which an instance keeps where the
  constructor does not assign; the integer \<^verbatim>\<open>0\<close> and the float \<^verbatim>\<open>0.0\<close> give the
  same products in the scores, so the default is \<open>Fin 0\<close>.
\<close>

record Statistics =
  pa :: pyfloat
  ph :: pyfloat
  pc :: pyfloat
  pk :: pyfloat
  la :: pyfloat
  lh :: pyfloat
  lc :: pyfloat
  lk :: pyfloat
  ls :: pyfloat
  cp :: pyfloat

definition Tateisi_class :: Statistics where
  "Tateisi_class = \<lparr>pa = Fin 0, ph = Fin 0, pc = Fin 0, pk = Fin 0,
                    la = Fin 0, lh = Fin 0, lc = Fin 0, lk = Fin 0, ls = Fin 0, cp = Fin 0\<rparr>"

text \<open>
  Lines 90--107, from the counters the loop has left, in the order of the source; an
  exception of a division ends the constructor. \<open>self0\<close> holds the attributes the
  instance starts with, the defaults of the class.
\<close>

definition finalize :: "Statistics \<Rightarrow> counters \<Rightarrow> error + Statistics" where
  "finalize self0 s =
    (let tk1 = py_or (tk s) (Fin 1) in
     and_then (truediv (PyInt (ar s + hr s + cr s + kr s)) (PyFloat (Fin 100))) (\<lambda>tr.
     and_then
       (if tr \<noteq> Fin 0 then
          and_then (truediv (PyInt (ar s)) (PyFloat tr)) (\<lambda>v1.
          and_then (truediv (PyInt (hr s)) (PyFloat tr)) (\<lambda>v2.
          and_then (truediv (PyInt (cr s)) (PyFloat tr)) (\<lambda>v3.
          and_then (truediv (PyInt (kr s)) (PyFloat tr)) (\<lambda>v4.
          Inr (self0\<lparr>pa := v1, ph := v2, pc := v3, pk := v4\<rparr>)))))
        else Inr self0) (\<lambda>self1.
     and_then
       (if ar s \<noteq> 0
        then and_then (truediv (PyInt (a s)) (PyInt (ar s))) (\<lambda>v. Inr (self1\<lparr>la := v\<rparr>))
        else Inr self1) (\<lambda>self2.
     and_then
       (if hr s \<noteq> 0
        then and_then (truediv (PyInt (h s)) (PyInt (hr s))) (\<lambda>v. Inr (self2\<lparr>lh := v\<rparr>))
        else Inr self2) (\<lambda>self3.
     and_then
       (if cr s \<noteq> 0
        then and_then (truediv (PyInt (c s)) (PyInt (cr s))) (\<lambda>v. Inr (self3\<lparr>lc := v\<rparr>))
        else Inr self3) (\<lambda>self4.
     and_then
       (if kr s \<noteq> 0
        then and_then (truediv (PyInt (k s)) (PyInt (kr s))) (\<lambda>v. Inr (self4\<lparr>lk := v\<rparr>))
        else Inr self4) (\<lambda>self5.
     and_then (truediv (PyInt (tt s)) tk1) (\<lambda>v.
     and_then (truediv (PyInt (a s + h s + c s + k s)) tk1) (\<lambda>w.
     Inr (self5\<lparr>cp := v, ls := w\<rparr>))))))))))"

text \<open>The constructor \<^verbatim>\<open>Tateisi(txt)\<close>, the \<^verbatim>\<open>classify\<close> of the specification.\<close>

definition Tateisi_init :: "unicode_text \<Rightarrow> error + Statistics" where
  "Tateisi_init txt = finalize Tateisi_class (scan initial txt)"

text \<open>
  Lines 109--125. Python evaluates \<^verbatim>\<open>x + y - z\<close> from the left; \<open>r1\<close>, \<open>r2\<close>, ...
  are the partial results. \<^verbatim>\<open>-0.12\<close> is the negation of the literal \<^verbatim>\<open>0.12\<close>.
\<close>

definition calculate_rs_tateisi_a :: "Statistics \<Rightarrow> pyfloat" where
  "calculate_rs_tateisi_a self =
     (let r1 = fadd (fmul (lit (6 / 100)) (pa self)) (fmul (lit (25 / 100)) (ph self));
          r2 = fsub r1 (fmul (lit (19 / 100)) (pc self));
          r3 = fsub r2 (fmul (lit (61 / 100)) (pk self));
          r4 = fsub r3 (fmul (lit (134 / 100)) (ls self));
          r5 = fsub r4 (fmul (lit (135 / 100)) (la self));
          r6 = fadd r5 (fmul (lit (752 / 100)) (lh self));
          r7 = fsub r6 (fmul (lit (221 / 10)) (lc self));
          r8 = fsub r7 (fmul (lit (53 / 10)) (lk self));
          r9 = fsub r8 (fmul (lit (387 / 100)) (cp self))
      in fsub r9 (lit (1091 / 10)))"

definition calculate_rs_tateisi_b :: "Statistics \<Rightarrow> pyfloat" where
  "calculate_rs_tateisi_b self =
     (let r1 = fadd (fmul (fneg (lit (12 / 100))) (ls self))
                    (fmul (fneg (lit (137 / 100))) (la self));
          r2 = fadd r1 (fmul (lit (74 / 10)) (lh self));
          r3 = fadd r2 (fmul (fneg (lit (2318 / 100))) (lc self));
          r4 = fadd r3 (fmul (fneg (lit (54 / 10))) (lk self));
          r5 = fadd r4 (fmul (fneg (lit (467 / 100))) (cp self))
      in fadd r5 (lit (11579 / 100)))"

text \<open>
  Instantiating the class when its attributes are \<open>cls\<close>. Every assignment of the
  constructor is to an attribute of the new instance (\<^verbatim>\<open>self.pa = ...\<close>), none to the
  class, and the loop's variables are local: the class attributes come back as they
  were, next to the instance or the exception.
\<close>

definition instantiate :: "Statistics \<Rightarrow> unicode_text \<Rightarrow> Statistics \<times> (error + Statistics)" where
  "instantiate cls txt = (cls, finalize cls (scan initial txt))"

subsection \<open>The scores in the words of the specification\<close>

text \<open>
  The specification gives each score as a sum of signed terms \<open>\<plusminus> c \<cdot> x\<close> in a fixed order,
  ended by a signed constant, evaluated in double precision from the left: a term
  written \<open>+ c \<cdot> x\<close> is added, a term written \<open>- c \<cdot> x\<close> is subtracted, and the first term
  is the product of its signed coefficient.
\<close>

fun add_terms :: "pyfloat \<Rightarrow> (rat \<times> pyfloat) list \<Rightarrow> pyfloat" where
  "add_terms acc [] = acc"
| "add_terms acc ((cf, v) # ts) =
     add_terms (if 0 \<le> cf then fadd acc (fmul (lit cf) v)
                else fsub acc (fmul (lit (- cf)) v)) ts"

fun signed_terms :: "(rat \<times> pyfloat) list \<Rightarrow> rat \<Rightarrow> pyfloat" where
  "signed_terms [] cst = lit cst"
| "signed_terms ((cf, v) # ts) cst =
     (let acc = add_terms (fmul (lit cf) v) ts
      in if 0 \<le> cst then fadd acc (lit cst) else fsub acc (lit (- cst)))"

definition scoreA :: "Statistics \<Rightarrow> pyfloat" where
  "scoreA s = signed_terms
     [(6 / 100, pa s), (25 / 100, ph s), (- (19 / 100), pc s), (- (61 / 100), pk s),
      (- (134 / 100), ls s), (- (135 / 100), la s), (752 / 100, lh s), (- (221 / 10), lc s),
      (- (53 / 10), lk s), (- (387 / 100), cp s)]
     (- (1091 / 10))"

definition scoreB :: "Statistics \<Rightarrow> pyfloat" where
  "scoreB s = signed_terms
     [(- (12 / 100), ls s), (- (137 / 100), la s), (74 / 10, lh s), (- (2318 / 100), lc s),
      (- (54 / 10), lk s), (- (467 / 100), cp s)]
     (11579 / 100)"

text \<open>The sum \<^verbatim>\<open>pa + ph + pc + pk\<close> of the four percentages, as Python adds floats, from the left.\<close>

definition percent_sum :: "Statistics \<Rightarrow> pyfloat" where
  "percent_sum st = fadd (fadd (fadd (pa st) (ph st)) (pc st)) (pk st)"

text \<open>The number of runs of any letter class that the scan of a text records.\<close>

definition run_count :: "unicode_text \<Rightarrow> int" where
  "run_count txt = (let s = scan initial txt in ar s + hr s + cr s + kr s)"

text \<open>
  The specification's property of a mean run length \<open>v\<close> of a class with \<open>chars\<close>
  letters in \<open>runs\<close> runs: zero without a run, and otherwise at least one, with at least
  as many letters as runs.
\<close>

definition mean_run_length_ok :: "int \<Rightarrow> int \<Rightarrow> pyfloat \<Rightarrow> bool" where
  "mean_run_length_ok chars runs v =
     (if runs = 0 then v = Fin 0
      else 1 \<le> runs \<and> runs \<le> chars \<and> (case v of Fin q \<Rightarrow> 1 \<le> q | _ \<Rightarrow> False))"

subsection \<open>Notions used in the proofs\<close>

text \<open>
  What the loop maintains: no counter is negative, and a class has at least as many
  letters as runs. \<open>total\<close> counts the characters the loop has counted.
\<close>

definition counts_ok :: "counters \<Rightarrow> bool" where
  "counts_ok s \<longleftrightarrow>
     0 \<le> ar s \<and> ar s \<le> a s \<and> 0 \<le> hr s \<and> hr s \<le> h s \<and>
     0 \<le> cr s \<and> cr s \<le> c s \<and> 0 \<le> kr s \<and> kr s \<le> k s \<and> 0 \<le> tt s \<and> 0 \<le> tk s"

definition total :: "counters \<Rightarrow> int" where
  "total s = a s + h s + c s + k s + tt s + tk s"

text \<open>
  Accumulated rounding error. Each rounding of a normal number changes it by a factor
  between \<open>1 - 2\<^sup>-\<^sup>5\<^sup>3\<close> and its inverse; \<open>rel_close n x y\<close> says that \<open>x\<close> is the exact
  value \<open>y\<close> up to \<open>n\<close> such factors. \<open>in_range\<close> keeps the exact value zero or far inside
  the normal doubles, \<open>approx\<close> is \<open>rel_close\<close> for a finite float, and \<open>fbounded m\<close> holds
  of the finite floats of magnitude at most \<open>2\<^sup>m\<close>.
\<close>

definition shrink :: "nat \<Rightarrow> rat" where
  "shrink n = (1 - 1 / 2 ^ 53) ^ n"

definition rel_close :: "nat \<Rightarrow> rat \<Rightarrow> rat \<Rightarrow> bool" where
  "rel_close n x y \<longleftrightarrow> y * shrink n \<le> x \<and> x * shrink n \<le> y"

definition in_range :: "rat \<Rightarrow> bool" where
  "in_range y \<longleftrightarrow> y = 0 \<or> (1 / 2 ^ 1000 \<le> y \<and> y \<le> 2 ^ 1000)"

definition approx :: "nat \<Rightarrow> pyfloat \<Rightarrow> rat \<Rightarrow> bool" where
  "approx n v y \<longleftrightarrow> in_range y \<and> (case v of Fin x \<Rightarrow> rel_close n x y | _ \<Rightarrow> False)"

definition fbounded :: "nat \<Rightarrow> pyfloat \<Rightarrow> bool" where
  "fbounded m v = (case v of Fin x \<Rightarrow> \<bar>x\<bar> \<le> 2 ^ m | _ \<Rightarrow> False)"

text \<open>
  What the constructor's results satisfy, given the counters \<open>s\<close> of the loop: a mean run
  length is zero without a run and at least one otherwise; a quotient by the kuten count
  is a finite float that is zero when the numerator is; the four percentages are zero
  without a run, and otherwise each approximates its exact value after four roundings.
\<close>

definition mean_ok :: "int \<Rightarrow> pyfloat \<Rightarrow> bool" where
  "mean_ok runs v =
     (case v of Fin q \<Rightarrow> (if runs = 0 then q = 0 else 1 \<le> q \<and> q \<le> 2 ^ 64) | _ \<Rightarrow> False)"

definition ratio_ok :: "int \<Rightarrow> pyfloat \<Rightarrow> bool" where
  "ratio_ok n v =
     (case v of Fin q \<Rightarrow> 0 \<le> q \<and> q \<le> 2 ^ 65 \<and> (n = 0 \<longrightarrow> q = 0) | _ \<Rightarrow> False)"

definition percent_ok :: "int \<Rightarrow> int \<Rightarrow> pyfloat \<Rightarrow> bool" where
  "percent_ok runs all_runs v =
     (if all_runs = 0 then v = Fin 0 else approx 4 v (100 * of_int runs / of_int all_runs))"

definition stats_ok :: "counters \<Rightarrow> Statistics \<Rightarrow> bool" where
  "stats_ok s st \<longleftrightarrow>
     percent_ok (ar s) (ar s + hr s + cr s + kr s) (pa st) \<and>
     percent_ok (hr s) (ar s + hr s + cr s + kr s) (ph st) \<and>
     percent_ok (cr s) (ar s + hr s + cr s + kr s) (pc st) \<and>
     percent_ok (kr s) (ar s + hr s + cr s + kr s) (pk st) \<and>
     mean_ok (ar s) (la st) \<and> mean_ok (hr s) (lh st) \<and>
     mean_ok (cr s) (lc st) \<and> mean_ok (kr s) (lk st) \<and>
     ratio_ok (tt s) (cp st) \<and> ratio_ok (a s + h s + c s + k s) (ls st)"

section \<open>Properties of the scan\<close>

lemma scan_append: "scan s (xs @ ys) = scan (scan s xs) ys"
  by (induction xs arbitrary: s) simp_all

lemma first_match_six:
  "first_match [(b1, c1), (b2, c2), (b3, c3), (b4, c4), (b5, c5), (b6, c6)] =
     (if b1 then c1 else if b2 then c2 else if b3 then c3 else if b4 then c4
      else if b5 then c5 else if b6 then c6 else Other)"
  by (simp add: first_match_def)

lemma char_class_cases:
  "char_class x =
    (if (0x0041 \<le> x \<and> x \<le> 0x007A) \<or> (0xFF21 \<le> x \<and> x \<le> 0xFF5A) then Alphabet
     else if 0x3041 \<le> x \<and> x \<le> 0x3096 then Hiragana
     else if 0x30A1 \<le> x \<and> x \<le> 0x30FA then Katakana
     else if 0x4E00 \<le> x \<and> x \<le> 0x9FBF then Kanji
     else if x = 0x3002 then KutenPunctuation
     else if x = 0x3001 then TotenPunctuation
     else Other)"
  unfolding char_class_def by (rule first_match_six)

lemma on_class_letter:
  "on_class Alphabet s =
     (let s1 = (if current_run s \<noteq> ''a''
                then s\<lparr>current_run := ''a'', ar := ar s + 1\<rparr> else s)
      in s1\<lparr>a := a s1 + 1\<rparr>)"
  "on_class Hiragana s =
     (let s1 = (if current_run s \<noteq> ''h''
                then s\<lparr>current_run := ''h'', hr := hr s + 1\<rparr> else s)
      in s1\<lparr>h := h s1 + 1\<rparr>)"
  "on_class Katakana s =
     (let s1 = (if current_run s \<noteq> ''k''
                then s\<lparr>current_run := ''k'', kr := kr s + 1\<rparr> else s)
      in s1\<lparr>k := k s1 + 1\<rparr>)"
  "on_class Kanji s =
     (let s1 = (if current_run s \<noteq> ''c''
                then s\<lparr>current_run := ''c'', cr := cr s + 1\<rparr> else s)
      in s1\<lparr>c := c s1 + 1\<rparr>)"
  by (simp_all add: begin_or_extend_def Let_def)

lemma step_on_class: "step s x = on_class (char_class x) s"
proof -
  have "step s x =
    (if (0x0041 \<le> x \<and> x \<le> 0x007A) \<or> (0xFF21 \<le> x \<and> x \<le> 0xFF5A) then on_class Alphabet s
     else if 0x3041 \<le> x \<and> x \<le> 0x3096 then on_class Hiragana s
     else if 0x30A1 \<le> x \<and> x \<le> 0x30FA then on_class Katakana s
     else if 0x4E00 \<le> x \<and> x \<le> 0x9FBF then on_class Kanji s
     else if x = 0x3002 then on_class KutenPunctuation s
     else if x = 0x3001 then on_class TotenPunctuation s
     else on_class Other s)"
    unfolding step_def on_class_letter on_class.simps(5-7) by (simp only: if_cancel)
  then show ?thesis
    unfolding char_class_cases by (simp only: if_distrib [of "\<lambda>cl. on_class cl s"])
qed

lemma run_state_on_class_cong:
  "run_state s = run_state s' \<Longrightarrow> run_state (on_class cl s) = run_state (on_class cl s')"
  by (cases cl) (simp_all add: run_state_def begin_or_extend_def)

lemma run_state_step_cong:
  "run_state s = run_state s' \<Longrightarrow> run_state (step s x) = run_state (step s' x)"
  unfolding step_on_class by (rule run_state_on_class_cong)

lemma run_state_scan_cong:
  "run_state s = run_state s' \<Longrightarrow> run_state (scan s ys) = run_state (scan s' ys)"
proof (induction ys arbitrary: s s')
  case Nil
  then show ?case by simp
next
  case (Cons y ys)
  from Cons.prems have "run_state (step s y) = run_state (step s' y)"
    by (rule run_state_step_cong)
  then have "run_state (scan (step s y) ys) = run_state (scan (step s' y) ys)"
    by (rule Cons.IH)
  then show ?case by simp
qed

lemma non_letter_step:
  "\<not> is_letter_class (char_class x) \<Longrightarrow> run_state (step s x) = run_state s"
  unfolding step_on_class by (cases "char_class x") (simp_all add: is_letter_class_def run_state_def)

lemma non_letter_invisible:
  assumes "\<not> is_letter_class (char_class x)"
  shows "run_state (scan s (xs @ x # ys)) = run_state (scan s (xs @ ys))"
proof -
  have "run_state (step (scan s xs) x) = run_state (scan s xs)"
    using assms by (rule non_letter_step)
  then have "run_state (scan (step (scan s xs) x) ys) = run_state (scan (scan s xs) ys)"
    by (rule run_state_scan_cong)
  then show ?thesis by (simp add: scan_append)
qed

lemma alphabet_step:
  assumes "char_class x = Alphabet"
  shows "step s x = s\<lparr>current_run := ''a'',
                        ar := (if current_run s = ''a'' then ar s else ar s + 1),
                        a := a s + 1\<rparr>"
  unfolding step_on_class assms by (simp add: begin_or_extend_def)

lemma ascii_gap_is_alphabet: "0x5B \<le> x \<Longrightarrow> x \<le> 0x60 \<Longrightarrow> char_class x = Alphabet"
  by (simp add: char_class_cases)

lemma fullwidth_gap_is_alphabet: "0xFF3B \<le> x \<Longrightarrow> x \<le> 0xFF40 \<Longrightarrow> char_class x = Alphabet"
  by (simp add: char_class_cases)

lemma ignored_is_not_letter:
  assumes "(0x21 \<le> x \<and> x \<le> 0x40) \<or> (0x7B \<le> x \<and> x \<le> 0x7E) \<or> x = 0x3002 \<or> x = 0x3001"
  shows "\<not> is_letter_class (char_class x)"
  using assms by (auto simp add: char_class_cases is_letter_class_def)

subsection \<open>What the loop maintains\<close>

lemma counts_ok_initial: "counts_ok initial"
  by (simp add: counts_ok_def initial_def)

lemma counts_ok_on_class: "counts_ok s \<Longrightarrow> counts_ok (on_class cl s)"
  by (cases cl) (simp_all add: counts_ok_def begin_or_extend_def)

lemma counts_ok_scan: "counts_ok s \<Longrightarrow> counts_ok (scan s txt)"
  by (induction "txt" arbitrary: s) (simp_all add: step_on_class counts_ok_on_class)

lemma total_on_class: "total (on_class cl s) \<le> total s + 1"
  by (cases cl) (simp_all add: total_def begin_or_extend_def)

lemma total_scan: "total (scan s txt) \<le> total s + int (length txt)"
proof (induction "txt" arbitrary: s)
  case Nil
  then show ?case by simp
next
  case (Cons x "txt")
  have "total (scan (step s x) txt) \<le> total (step s x) + int (length txt)" by (rule Cons.IH)
  also have "total (step s x) \<le> total s + 1" unfolding step_on_class by (rule total_on_class)
  finally show ?case by simp
qed

lemma total_initial: "total initial = 0"
  by (simp add: total_def initial_def)

lemma scan_without_letters:
  "\<forall>x\<in>set txt. \<not> is_letter_class (char_class x) \<Longrightarrow> run_state (scan s txt) = run_state s"
proof (induction "txt" arbitrary: s)
  case Nil
  then show ?case by simp
next
  case (Cons x "txt")
  then have "run_state (scan (step s x) txt) = run_state (step s x)" by simp
  also have "\<dots> = run_state s" using Cons.prems by (simp add: non_letter_step)
  finally show ?case by simp
qed

lemma on_class_tt: "cl \<noteq> TotenPunctuation \<Longrightarrow> tt (on_class cl s) = tt s"
  by (cases cl) (simp_all add: begin_or_extend_def)

lemma scan_without_toten:
  "\<forall>x\<in>set txt. char_class x \<noteq> TotenPunctuation \<Longrightarrow> tt (scan s txt) = tt s"
  by (induction "txt" arbitrary: s) (simp_all add: step_on_class on_class_tt)

lemma pow2_powi: "pow2 e = 2 powi e"
  by (simp add: pow2_def power_int_def field_simps)

lemma pow2_pos [simp]: "0 < pow2 e"
  by (simp add: pow2_powi)

lemma pow2_add: "pow2 (i + j) = pow2 i * pow2 j"
  by (simp add: pow2_powi power_int_add)

lemma pow2_nat: "pow2 (int n) = 2 ^ n"
  by (simp add: pow2_def)

lemma pow2_mono: "i \<le> j \<Longrightarrow> pow2 i \<le> pow2 j"
  by (simp add: pow2_powi power_int_increasing)

lemma pow2_less_cancel: "pow2 i < pow2 j \<Longrightarrow> i < j"
  using pow2_mono [of j i] by (cases "i < j") auto

lemma bit_length_bounds:
  "0 < n \<Longrightarrow> 2 ^ (bit_length n - 1) \<le> n \<and> n < 2 ^ bit_length n"
proof (induction n rule: bit_length.induct)
  case (1 n)
  show ?case
  proof (cases "n div 2 = 0")
    case True
    with \<open>0 < n\<close> have "n = 1" by presburger
    then show ?thesis by (simp add: bit_length.simps)
  next
    case False
    with "1.prems" "1.IH" have ih: "2 ^ (bit_length (n div 2) - 1) \<le> n div 2"
      "n div 2 < 2 ^ bit_length (n div 2)" by auto
    from False have pos: "0 < bit_length (n div 2)" by (simp add: bit_length.simps)
    have eq: "bit_length n = Suc (bit_length (n div 2))"
      using "1.prems" by (subst bit_length.simps) simp
    have "2 * 2 ^ (bit_length (n div 2) - 1) \<le> n" using ih(1) by linarith
    moreover have "2 * 2 ^ (bit_length (n div 2) - 1) = (2::nat) ^ bit_length (n div 2)"
      using pos by (cases "bit_length (n div 2)") simp_all
    moreover have "n < 2 * 2 ^ bit_length (n div 2)" using ih(2) by linarith
    ultimately show ?thesis by (simp add: eq)
  qed
qed

lemma bit_length_pos: "0 < n \<Longrightarrow> 0 < bit_length n"
  by (subst bit_length.simps) simp

lemma ilog2_bounds:
  assumes "0 < x"
  shows "pow2 (ilog2 x) \<le> x" and "x < pow2 (ilog2 x + 1)"
proof -
  have "pow2 (ilog2 x) \<le> x \<and> x < pow2 (ilog2 x + 1)"
  proof (cases "1 \<le> x")
    case True
    define n where "n = nat \<lfloor>x\<rfloor>"
    have n: "0 < n" "of_nat n \<le> x" "x < of_nat n + 1"
      using True by (simp_all add: n_def) linarith+
    define b where "b = bit_length n"
    have b: "0 < b" "2 ^ (b - 1) \<le> n" "n < 2 ^ b"
      using bit_length_bounds [OF n(1)] bit_length_pos [OF n(1)] by (simp_all add: b_def)
    have e: "ilog2 x = int (b - 1)" using True b(1) by (simp add: ilog2_def n_def b_def)
    have p1: "(2::rat) ^ (b - 1) \<le> of_nat n" using b(2) by (metis of_nat_le_iff of_nat_numeral of_nat_power)
    have "pow2 (ilog2 x) = 2 ^ (b - 1)" by (simp only: e pow2_nat)
    then have lo: "pow2 (ilog2 x) \<le> x" using p1 n(2) by linarith
    have "n + 1 \<le> 2 ^ b" using b(3) by simp
    then have "(of_nat (n + 1) :: rat) \<le> of_nat (2 ^ b)" by (simp only: of_nat_le_iff)
    then have p2: "of_nat n + 1 \<le> (2::rat) ^ b" by simp
    have "ilog2 x + 1 = int b" using b(1) by (simp add: e)
    then have "pow2 (ilog2 x + 1) = 2 ^ b" by (simp only: pow2_nat)
    then have "x < pow2 (ilog2 x + 1)" using n(3) p2 by linarith
    with lo show ?thesis by simp
  next
    case False
    then have x1: "x < 1" by simp
    define y where "y = 1 / x"
    have y: "1 < y" using assms x1 by (simp add: y_def)
    define m where "m = \<lceil>y\<rceil>"
    have m: "2 \<le> m" "y \<le> of_int m" "of_int m - 1 < y"
      using y by (simp_all add: m_def) linarith+
    define n where "n = nat (m - 1)"
    have n: "0 < n" "int n = m - 1" using m(1) by (simp_all add: n_def)
    define b where "b = bit_length n"
    have b: "0 < b" "2 ^ (b - 1) \<le> n" "n < 2 ^ b"
      using bit_length_bounds [OF n(1)] bit_length_pos [OF n(1)] by (simp_all add: b_def)
    have e: "ilog2 x = - int b" using False by (simp add: ilog2_def n_def b_def m_def y_def)
    have "int n + 1 \<le> 2 ^ b" using b(3) by (metis add.commute of_nat_Suc of_nat_le_iff of_nat_numeral of_nat_power Suc_leI plus_1_eq_Suc)
    then have "m \<le> 2 ^ b" using n(2) by simp
    then have "(of_int m :: rat) \<le> of_int (2 ^ b)" by (simp only: of_int_le_iff)
    then have "(of_int m :: rat) \<le> 2 ^ b" by simp
    then have "y \<le> 2 ^ b" using m(2) by linarith
    then have p3: "1 / 2 ^ b \<le> x" using assms by (simp add: y_def field_simps)
    have "pow2 (ilog2 x) = 1 / 2 ^ b" using b(1) by (simp add: e pow2_def)
    then have lo: "pow2 (ilog2 x) \<le> x" using p3 by linarith
    have "(2::int) ^ (b - 1) \<le> int n" using b(2) by (metis of_nat_le_iff of_nat_numeral of_nat_power)
    then have "(of_int (2 ^ (b - 1)) :: rat) \<le> of_int (m - 1)" using n(2) by (simp only: of_int_le_iff)
    then have "(2::rat) ^ (b - 1) \<le> of_int m - 1" by simp
    then have "(2::rat) ^ (b - 1) < y" using m(3) by linarith
    then have p4: "x < 1 / 2 ^ (b - 1)" using assms by (simp add: y_def field_simps)
    have "ilog2 x + 1 = - int (b - 1)" using b(1) by (simp add: e)
    moreover have "pow2 (- int k) = 1 / 2 ^ k" for k
      unfolding pow2_powi power_int_minus_divide by simp
    ultimately have "pow2 (ilog2 x + 1) = 1 / 2 ^ (b - 1)" by simp
    then have "x < pow2 (ilog2 x + 1)" using p4 by linarith
    then show ?thesis using lo by simp
  qed
  then show "pow2 (ilog2 x) \<le> x" and "x < pow2 (ilog2 x + 1)" by simp_all
qed

lemma pow2_nonneg [simp]: "0 \<le> pow2 e"
  using pow2_pos [of e] by (rule less_imp_le)

lemma pow2_neq0 [simp]: "pow2 e \<noteq> 0"
  using pow2_pos [of e] by (metis less_irrefl)

lemma rhe_cases:
  obtains (down) "round_half_even q = \<lfloor>q\<rfloor>" "q - of_int \<lfloor>q\<rfloor> \<le> 1 / 2"
        | (up) "round_half_even q = \<lfloor>q\<rfloor> + 1" "1 / 2 \<le> q - of_int \<lfloor>q\<rfloor>"
  unfolding round_half_even_def Let_def
  by (cases "q - of_int \<lfloor>q\<rfloor> < 1 / 2"; cases "1 / 2 < q - of_int \<lfloor>q\<rfloor>"; cases "even \<lfloor>q\<rfloor>") auto

lemma rhe_err: "\<bar>of_int (round_half_even q) - q\<bar> \<le> 1 / 2"
proof (cases q rule: rhe_cases)
  case down
  have "of_int \<lfloor>q\<rfloor> \<le> q" by simp
  with down show ?thesis by simp
next
  case up
  have "q < of_int \<lfloor>q\<rfloor> + 1" by linarith
  with up show ?thesis by simp
qed

lemma rhe_of_int [simp]: "round_half_even (of_int n) = n"
  by (simp add: round_half_even_def)

lemma rhe_ge: "of_int n \<le> q \<Longrightarrow> n \<le> round_half_even q"
proof -
  assume "of_int n \<le> q"
  then have "n \<le> \<lfloor>q\<rfloor>" by (simp add: le_floor_iff)
  then show ?thesis by (cases q rule: rhe_cases) simp_all
qed

lemma rhe_le: "q \<le> of_int n \<Longrightarrow> round_half_even q \<le> n"
proof (cases "q = of_int n")
  case True
  then show ?thesis by simp
next
  case False
  assume "q \<le> of_int n"
  with False have "q < of_int n" by simp
  then have "\<lfloor>q\<rfloor> < n" by (simp add: floor_less_iff)
  then show ?thesis by (cases q rule: rhe_cases) simp_all
qed

lemma rhe_minus: "round_half_even (- q) = - round_half_even q"
proof (cases "q = of_int \<lfloor>q\<rfloor>")
  case True
  then obtain n where "q = of_int n" ..
  then have "- q = of_int (- n)" by simp
  then show ?thesis using \<open>q = of_int n\<close> by (simp only: rhe_of_int)
next
  case False
  define f where "f = \<lfloor>q\<rfloor>"
  define r where "r = q - of_int f"
  have "of_int \<lfloor>q\<rfloor> \<le> q" by (rule of_int_floor_le)
  then have "of_int \<lfloor>q\<rfloor> < q" using False [symmetric] by (rule le_neq_trans)
  moreover have "q < of_int \<lfloor>q\<rfloor> + 1" by linarith
  ultimately have fl: "of_int f < q" "q < of_int f + 1" by (simp_all only: f_def)
  have "\<lfloor>- q\<rfloor> = - f - 1"
    by (rule floor_unique) (use fl in simp_all)
  then have m: "\<lfloor>- q\<rfloor> = - f - 1" "- q - of_int (- f - 1) = 1 - r"
    by (simp_all add: r_def)
  have "round_half_even (- q) =
      (if 1 - r < 1 / 2 then - f - 1 else if 1 / 2 < 1 - r then - f
       else if even (- f - 1) then - f - 1 else - f)"
    unfolding round_half_even_def Let_def m by simp
  moreover have "round_half_even q =
      (if r < 1 / 2 then f else if 1 / 2 < r then f + 1 else if even f then f else f + 1)"
    unfolding round_half_even_def Let_def f_def r_def by simp
  ultimately show ?thesis unfolding r_def by auto
qed

lemma nearest_double_zero [simp]: "nearest_double 0 = 0"
  by (simp add: nearest_double_def)

lemma nearest_double_minus: "nearest_double (- x) = - nearest_double x"
  by (simp add: nearest_double_def Let_def rhe_minus)

lemma nearest_double_nonneg: "0 \<le> x \<Longrightarrow> 0 \<le> nearest_double x"
proof -
  assume "0 \<le> x"
  then have "0 \<le> x / pow2 e" for e by (intro divide_nonneg_pos pow2_pos)
  then have "0 \<le> round_half_even (x / pow2 e)" for e
    using rhe_ge [of 0 "x / pow2 e"] by simp
  then have "0 \<le> of_int (round_half_even (x / pow2 e)) * pow2 e" for e
    by (intro mult_nonneg_nonneg) simp_all
  then show ?thesis by (simp add: nearest_double_def Let_def)
qed

lemma rhe_le_double: "0 \<le> q \<Longrightarrow> of_int (round_half_even q) \<le> 2 * q"
proof (cases "q < 1 / 2")
  case True
  assume "0 \<le> q"
  with True have "\<lfloor>q\<rfloor> = 0" by (intro floor_unique) simp_all
  with True have "round_half_even q = 0" by (simp add: round_half_even_def)
  with \<open>0 \<le> q\<close> show ?thesis by simp
next
  case False
  with rhe_err [of q] show ?thesis by linarith
qed

lemma nearest_double_le_double: "\<bar>nearest_double x\<bar> \<le> 2 * \<bar>x\<bar>"
proof -
  have pos: "nearest_double y \<le> 2 * y" if "0 \<le> y" for y
  proof (cases "y = 0")
    case True
    then show ?thesis by simp
  next
    case False
    define e where "e = max (ilog2 \<bar>y\<bar>) (- 1022) - 52"
    have "of_int (round_half_even (y / pow2 e)) \<le> 2 * (y / pow2 e)"
      using that by (intro rhe_le_double divide_nonneg_pos pow2_pos)
    then have "of_int (round_half_even (y / pow2 e)) * pow2 e \<le> 2 * (y / pow2 e) * pow2 e"
      by (intro mult_right_mono) simp_all
    then show ?thesis using False by (simp add: nearest_double_def e_def Let_def)
  qed
  show ?thesis
  proof (cases "0 \<le> x")
    case True
    with pos [of x] nearest_double_nonneg [of x] show ?thesis by simp
  next
    case False
    then have "0 \<le> - x" by simp
    from pos [OF this] nearest_double_nonneg [OF this] False
    show ?thesis by (simp add: nearest_double_minus)
  qed
qed

lemma nearest_double_normal:
  assumes "pow2 (- 1022) \<le> x"
  shows "\<bar>nearest_double x - x\<bar> \<le> x / 2 ^ 53" and "pow2 (ilog2 x) \<le> nearest_double x"
proof -
  have x: "0 < x" using assms pow2_pos [of "- 1022"] by linarith
  define e where "e = ilog2 x"
  have b: "pow2 e \<le> x" "x < pow2 (e + 1)" using ilog2_bounds [OF x] by (simp_all add: e_def)
  have "pow2 (- 1022) < pow2 (e + 1)" using assms b(2) by linarith
  then have e: "- 1022 \<le> e" using pow2_less_cancel [of "- 1022" "e + 1"] by simp
  define u where "u = pow2 (e - 52)"
  have u: "0 < u" by (simp add: u_def)
  have nd: "nearest_double x = of_int (round_half_even (x / u)) * u"
    using x e by (simp add: nearest_double_def e_def u_def max_def Let_def)
  have pe: "pow2 e = 2 ^ 52 * u"
    using pow2_add [of 52 "e - 52"] pow2_nat [of 52] by (simp add: u_def)
  have "nearest_double x - x = (of_int (round_half_even (x / u)) - x / u) * u"
    using u by (simp add: nd left_diff_distrib)
  then have "\<bar>nearest_double x - x\<bar> = \<bar>of_int (round_half_even (x / u)) - x / u\<bar> * u"
    using u by (simp add: abs_mult)
  also have "\<dots> \<le> 1 / 2 * u"
    using u rhe_err [of "x / u"] by (intro mult_right_mono) simp_all
  also have "\<dots> = pow2 e / 2 ^ 53" by (simp add: pe)
  also have "\<dots> \<le> x / 2 ^ 53" using b(1) by (simp add: divide_right_mono)
  finally show "\<bar>nearest_double x - x\<bar> \<le> x / 2 ^ 53" .
  have "of_int (2 ^ 52) \<le> x / u" using b(1) u by (simp add: pe field_simps)
  then have "2 ^ 52 \<le> round_half_even (x / u)" by (rule rhe_ge)
  then have "(of_int (2 ^ 52) :: rat) \<le> of_int (round_half_even (x / u))"
    by (simp only: of_int_le_iff)
  then have "2 ^ 52 * u \<le> of_int (round_half_even (x / u)) * u"
    using u by (intro mult_right_mono) simp_all
  then have "pow2 e \<le> nearest_double x" unfolding nd pe .
  then show "pow2 (ilog2 x) \<le> nearest_double x" by (simp only: e_def)
qed

subsection \<open>Rounding and negation, finite results\<close>

lemma to_double_minus: "to_double (- x) = fneg (to_double x)"
proof -
  have "0 < pow2 1024" by simp
  then show ?thesis
    unfolding to_double_def Let_def nearest_double_minus
    by (cases "pow2 1024 \<le> nearest_double x"; cases "nearest_double x \<le> - pow2 1024")
      (auto simp del: pow2_pos pow2_nonneg pow2_neq0)
qed

lemma pow2_numeral: "pow2 (numeral n) = 2 ^ numeral n"
  by (simp add: pow2_def)

lemma to_double_finite:
  assumes "\<bar>x\<bar> \<le> 2 ^ 1022"
  shows "to_double x = Fin (nearest_double x)"
proof -
  have "\<bar>nearest_double x\<bar> \<le> 2 * \<bar>x\<bar>" by (rule nearest_double_le_double)
  also have "\<dots> \<le> 2 * 2 ^ 1022" using assms by simp
  also have "\<dots> < (2::rat) ^ 1024" by simp
  finally have "\<bar>nearest_double x\<bar> < pow2 1024" by (simp only: pow2_numeral)
  then show ?thesis unfolding to_double_def Let_def by (simp add: abs_less_iff not_le)
qed

lemma to_double_zero [simp]: "to_double 0 = Fin 0"
  using to_double_finite [of 0] by simp

lemma fmul_fneg: "fmul (fneg v) w = fneg (fmul v w)"
  by (cases v; cases w) (auto simp add: to_double_minus signed_inf_def)

lemma fadd_fneg: "fadd v (fneg w) = fsub v w"
  by (cases v; cases w) simp_all

lemma lit_minus: "lit (- x) = fneg (lit x)"
  by (simp add: lit_def to_double_minus)

subsection \<open>Evaluating a rounding\<close>

lemma ilog2_eqI:
  assumes "pow2 e \<le> x" and "x < pow2 (e + 1)"
  shows "ilog2 x = e"
proof -
  have x: "0 < x" using assms(1) pow2_pos [of e] by linarith
  from ilog2_bounds [OF x] assms
  have "pow2 (ilog2 x) < pow2 (e + 1)" and "pow2 e < pow2 (ilog2 x + 1)" by linarith+
  then have "ilog2 x < e + 1" and "e < ilog2 x + 1" by (simp_all only: pow2_less_cancel)
  then show ?thesis by simp
qed

lemma rhe_eqI:
  assumes "\<bar>of_int m - q\<bar> < 1 / 2"
  shows "round_half_even q = m"
proof -
  have "\<bar>of_int (round_half_even q) - (of_int m :: rat)\<bar> < 1"
    using rhe_err [of q] assms by linarith
  then have "\<bar>(of_int (round_half_even q - m) :: rat)\<bar> < of_int 1" by simp
  then have "\<bar>round_half_even q - m\<bar> < 1"
    by (simp only: of_int_abs [symmetric] of_int_less_iff)
  then show ?thesis by simp
qed

text \<open>
  A double \<open>r = m \<cdot> 2\<^sup>e\<^sup>-\<^sup>5\<^sup>2\<close> that is closer to \<open>x\<close> than half the spacing of the doubles
  around \<open>x\<close> is the rounding of \<open>x\<close>.
\<close>

lemma to_double_eqI:
  assumes "pow2 e \<le> \<bar>x\<bar>" and "\<bar>x\<bar> < pow2 (e + 1)" and "- 1022 \<le> e"
    and "r = of_int m * pow2 (e - 52)" and "\<bar>r - x\<bar> < pow2 (e - 53)" and "\<bar>r\<bar> < pow2 1024"
  shows "to_double x = Fin r"
proof -
  have x0: "x \<noteq> 0" using assms(1) pow2_pos [of e] by (auto simp del: pow2_pos pow2_nonneg pow2_neq0)
  have "ilog2 \<bar>x\<bar> = e" using assms(1,2) by (rule ilog2_eqI)
  then have nd: "nearest_double x = of_int (round_half_even (x / pow2 (e - 52))) * pow2 (e - 52)"
    using x0 assms(3) by (simp add: nearest_double_def Let_def max_def)
  define u where "u = pow2 (e - 52)"
  have u: "0 < u" by (simp add: u_def)
  have half: "pow2 (e - 53) = u / 2"
    using pow2_add [of "e - 52" "- 1"] by (simp add: u_def pow2_def)
  have "of_int m - x / u = (r - x) / u" using u by (simp add: assms(4) u_def field_simps)
  then have "\<bar>of_int m - x / u\<bar> = \<bar>r - x\<bar> / u" using u by (simp add: abs_divide)
  also have "\<dots> < (u / 2) / u" using assms(5) u by (simp add: half divide_strict_right_mono)
  also have "\<dots> = 1 / 2" using u by simp
  finally have "round_half_even (x / u) = m" by (rule rhe_eqI)
  then have "nearest_double x = r" by (simp add: nd assms(4) u_def)
  then show ?thesis using assms(6) unfolding to_double_def Let_def
    by (simp add: abs_less_iff not_le)
qed

subsection \<open>Accumulated rounding error\<close>

lemma shrink_pos: "0 < shrink n"
  by (simp add: shrink_def)

lemma shrink_le_one: "shrink n \<le> 1"
  by (simp add: shrink_def power_le_one)

lemma shrink_zero: "shrink 0 = 1"
  by (simp add: shrink_def)

lemma shrink_Suc: "shrink (Suc n) = shrink n * (1 - 1 / 2 ^ 53)"
  by (simp add: shrink_def)

lemma shrink_add: "shrink (i + j) = shrink i * shrink j"
  by (simp add: shrink_def power_add)

lemma shrink_antimono: "i \<le> j \<Longrightarrow> shrink j \<le> shrink i"
  by (simp add: shrink_def power_decreasing)

lemma shrink_lower: "1 - of_nat n / 2 ^ 53 \<le> shrink n"
proof (induction n)
  case 0
  then show ?case by (simp add: shrink_zero)
next
  case (Suc n)
  define u :: rat where "u = 1 / 2 ^ 53"
  have u: "0 \<le> u" "0 \<le> 1 - u" by (simp_all add: u_def)
  have "(1 - of_nat n * u) * (1 - u) = 1 - of_nat (Suc n) * u + of_nat n * (u * u)"
    by (simp add: algebra_simps)
  moreover have "0 \<le> of_nat n * (u * u)" using u(1) by simp
  ultimately have "1 - of_nat (Suc n) * u \<le> (1 - of_nat n * u) * (1 - u)" by linarith
  also have "\<dots> \<le> shrink n * (1 - u)"
    using Suc.IH u(2) by (intro mult_right_mono) (simp_all add: u_def)
  finally show ?case by (simp add: shrink_Suc u_def)
qed

lemma shrink_half: "n \<le> 8 \<Longrightarrow> 1 / 2 \<le> shrink n"
proof -
  assume "n \<le> 8"
  then have "(of_nat n :: rat) \<le> of_nat 8" by (simp only: of_nat_le_iff)
  then have "(of_nat n :: rat) / 2 ^ 53 \<le> 8 / 2 ^ 53" by (simp add: divide_right_mono)
  then have "(1::rat) / 2 \<le> 1 - of_nat n / 2 ^ 53" by simp
  also have "\<dots> \<le> shrink n" by (rule shrink_lower)
  finally show ?thesis .
qed

lemma rel_close_nonneg:
  assumes "rel_close n x y" and "0 \<le> y"
  shows "0 \<le> x"
proof -
  have "0 \<le> y * shrink n" using assms(2) shrink_pos [of n] by simp
  then show ?thesis using assms(1) by (simp add: rel_close_def)
qed

lemma rel_close_zero:
  assumes "rel_close n x 0"
  shows "x = 0"
proof -
  have "0 \<le> x" using assms by (simp add: rel_close_def)
  moreover have "x * shrink n \<le> 0" using assms by (simp add: rel_close_def)
  then have "x \<le> 0" using shrink_pos [of n] by (simp add: mult_le_0_iff)
  ultimately show ?thesis by simp
qed

lemma rel_close_refl: "rel_close 0 y y"
  by (simp add: rel_close_def shrink_zero)

lemma in_range_nonneg: "in_range y \<Longrightarrow> 0 \<le> y"
  by (auto simp add: in_range_def intro: order_trans [of 0 "1 / 2 ^ 1000"])

lemma rel_close_mono:
  assumes "rel_close i x y" and "i \<le> j" and "0 \<le> y"
  shows "rel_close j x y"
proof -
  have x: "0 \<le> x" using assms(1,3) by (rule rel_close_nonneg)
  have sh: "shrink j \<le> shrink i" using assms(2) by (rule shrink_antimono)
  have "y * shrink j \<le> y * shrink i" using sh assms(3) by (rule mult_left_mono)
  moreover have "x * shrink j \<le> x * shrink i" using sh x by (rule mult_left_mono)
  ultimately show ?thesis using assms(1) by (simp add: rel_close_def)
qed

lemma rel_close_add:
  assumes "rel_close i x y" and "rel_close i x' y'"
  shows "rel_close i (x + x') (y + y')"
  using assms by (simp add: rel_close_def distrib_right)

lemma rel_close_div:
  assumes "rel_close i x y" and "rel_close j x' y'" and "0 \<le> y" and "0 < y'"
  shows "rel_close (i + j) (x / x') (y / y')"
proof -
  have x: "0 \<le> x" using assms(1,3) by (rule rel_close_nonneg)
  have si: "0 < shrink i" and sj: "0 < shrink j" by (rule shrink_pos)+
  have "0 < y' * shrink j" using assms(4) sj by simp
  then have x': "0 < x'" using assms(2) by (simp add: rel_close_def)
  have a1: "y * shrink i \<le> x" and a2: "x * shrink i \<le> y"
    and b1: "y' * shrink j \<le> x'" and b2: "x' * shrink j \<le> y'"
    using assms(1,2) by (simp_all add: rel_close_def)
  have "(y * shrink i) * (x' * shrink j) \<le> x * y'"
    using a1 b2 x x' sj by (intro mult_mono) simp_all
  then have "y * (shrink i * shrink j) * x' \<le> x * y'" by (simp add: mult_ac)
  then have c1: "y / y' * shrink (i + j) \<le> x / x'"
    using x' assms(4) by (simp add: shrink_add field_simps)
  have "(x * shrink i) * (y' * shrink j) \<le> y * x'"
    using a2 b1 assms(3,4) sj by (intro mult_mono) simp_all
  then have "x * (shrink i * shrink j) * y' \<le> y * x'" by (simp add: mult_ac)
  then have c2: "x / x' * shrink (i + j) \<le> y / y'"
    using x' assms(4) by (simp add: shrink_add field_simps)
  from c1 c2 show ?thesis by (simp add: rel_close_def)
qed

lemma rel_close_round:
  assumes "in_range y" and "rel_close n x y" and "n \<le> 7"
  shows "to_double x = Fin (nearest_double x)" and "rel_close (Suc n) (nearest_double x) y"
proof -
  have "to_double x = Fin (nearest_double x) \<and> rel_close (Suc n) (nearest_double x) y"
  proof (cases "y = 0")
    case True
    with assms(2) have "x = 0" by (simp add: rel_close_zero)
    with True show ?thesis by (simp add: rel_close_def)
  next
    case False
    with assms(1) have y: "1 / 2 ^ 1000 \<le> y" "y \<le> 2 ^ 1000" by (simp_all add: in_range_def)
    have y0: "0 < y" using y(1) by (rule less_le_trans [rotated]) simp
    define sh where "sh = shrink n"
    have sh: "1 / 2 \<le> sh" "sh \<le> 1" "0 < sh"
      using shrink_half [of n] shrink_le_one [of n] shrink_pos [of n] assms(3)
      by (simp_all add: sh_def)
    have c: "y * sh \<le> x" "x * sh \<le> y" using assms(2) by (simp_all add: rel_close_def sh_def)
    have "y * (1 / 2) \<le> y * sh" using sh(1) y0 by (intro mult_left_mono) simp_all
    with c(1) have xlo: "y / 2 \<le> x" by simp
    then have x0: "0 < x" using y0 by linarith
    have "x * (1 / 2) \<le> x * sh" using sh(1) x0 by (intro mult_left_mono) simp_all
    with c(2) have xhi: "x \<le> 2 * y" by simp
    have "pow2 (- 1022) \<le> 1 / 2 ^ 1001" by (simp add: pow2_def)
    also have "\<dots> \<le> y / 2" using y(1) by simp
    finally have normal: "pow2 (- 1022) \<le> x" using xlo by simp
    have "\<bar>x\<bar> \<le> 2 * 2 ^ 1000" using xhi y(2) x0 by simp
    also have "\<dots> \<le> (2::rat) ^ 1022" by simp
    finally have fin: "to_double x = Fin (nearest_double x)" by (rule to_double_finite)
    define r where "r = nearest_double x"
    define L :: rat where "L = 1 - 1 / 2 ^ 53"
    have L: "0 < L" "L \<le> 1" by (simp_all add: L_def)
    have err: "\<bar>r - x\<bar> \<le> x / 2 ^ 53" using nearest_double_normal(1) [OF normal] by (simp add: r_def)
    have xL: "x * L = x - x / 2 ^ 53" "x * (1 + 1 / 2 ^ 53) = x + x / 2 ^ 53"
      by (simp_all add: L_def algebra_simps)
    have lo: "x * L \<le> r" unfolding xL using err by linarith
    have "r \<le> x * (1 + 1 / 2 ^ 53)" unfolding xL using err by linarith
    then have "r * L \<le> x * (1 + 1 / 2 ^ 53) * L" using L(1) by (intro mult_right_mono) simp_all
    also have "\<dots> = x * (1 - 1 / 2 ^ 106)" by (simp add: L_def algebra_simps)
    also have "\<dots> \<le> x" using x0 by (simp add: algebra_simps)
    finally have hi: "r * L \<le> x" .
    have "y * sh * L \<le> x * L" using c(1) L(1) by (intro mult_right_mono) simp_all
    with lo have g1: "y * (sh * L) \<le> r" by (simp add: mult.assoc)
    have "r * L * sh \<le> x * sh" using hi sh(3) by (intro mult_right_mono) simp_all
    with c(2) have g2: "r * (sh * L) \<le> y" by (simp add: mult_ac)
    have "shrink (Suc n) = sh * L" by (simp add: shrink_Suc sh_def L_def)
    with g1 g2 have "rel_close (Suc n) r y" by (simp add: rel_close_def)
    with fin show ?thesis by (simp add: r_def)
  qed
  then show "to_double x = Fin (nearest_double x)" and "rel_close (Suc n) (nearest_double x) y"
    by simp_all
qed

lemma approx_round:
  "in_range y \<Longrightarrow> rel_close n x y \<Longrightarrow> n \<le> 7 \<Longrightarrow> approx (Suc n) (to_double x) y"
  using rel_close_round [of y n x] by (simp add: approx_def)

lemma approx_Fin: "in_range y \<Longrightarrow> approx 0 (Fin y) y"
  by (simp add: approx_def rel_close_refl)

lemma approx_mono: "approx i v y \<Longrightarrow> i \<le> j \<Longrightarrow> approx j v y"
  by (cases v) (auto simp add: approx_def intro: rel_close_mono in_range_nonneg)

lemma approx_zero: "approx n v 0 \<Longrightarrow> v = Fin 0"
  by (cases v) (auto simp add: approx_def dest: rel_close_zero)

lemma approx_FinE:
  assumes "approx n v y"
  obtains x where "v = Fin x" and "rel_close n x y" and "in_range y"
  using assms by (cases v) (auto simp add: approx_def)

lemma approx_int:
  assumes "0 \<le> n" and "n \<le> 2 ^ 63"
  shows "int_to_float n = Inr (to_double (of_int n))" and "approx 1 (to_double (of_int n)) (of_int n)"
proof -
  have r: "in_range (of_int n)"
  proof (cases "n = 0")
    case True
    then show ?thesis by (simp add: in_range_def)
  next
    case False
    with assms(1) have "1 \<le> n" by simp
    then have "(1::rat) \<le> of_int n" by simp
    moreover have "(1::rat) / 2 ^ 1000 \<le> 1" by simp
    moreover have "(of_int n :: rat) \<le> of_int (2 ^ 63)" using assms(2) by (simp only: of_int_le_iff)
    then have "(of_int n :: rat) \<le> 2 ^ 1000" by simp
    ultimately show ?thesis by (simp add: in_range_def)
  qed
  then have a: "approx (Suc 0) (to_double (of_int n)) (of_int n)"
    using rel_close_refl by (rule approx_round) simp
  then show "approx 1 (to_double (of_int n)) (of_int n)" by simp
  from a show "int_to_float n = Inr (to_double (of_int n))"
    by (cases "to_double (of_int n :: rat)") (simp_all add: approx_def int_to_float_def finite_or_overflow_def)
qed

lemma approx_float_div:
  assumes "approx i v y" and "approx j w z" and "0 < z" and "in_range (y / z)" and "i + j \<le> 7"
  shows "float_div v w = Inr (fdiv v w)" and "approx (Suc (i + j)) (fdiv v w) (y / z)"
proof -
  from assms(1) obtain x where v: "v = Fin x" and cx: "rel_close i x y" and ry: "in_range y"
    by (rule approx_FinE)
  from assms(2) obtain x' where w: "w = Fin x'" and cx': "rel_close j x' z"
    by (rule approx_FinE)
  have "0 < z * shrink j" using assms(3) shrink_pos [of j] by simp
  then have "0 < x'" using cx' by (simp add: rel_close_def)
  then show "float_div v w = Inr (fdiv v w)" by (simp add: float_div_def w)
  have "rel_close (i + j) (x / x') (y / z)"
    using cx cx' in_range_nonneg [OF ry] assms(3) by (rule rel_close_div)
  with assms(4) have "approx (Suc (i + j)) (to_double (x / x')) (y / z)"
    using assms(5) by (rule approx_round)
  then show "approx (Suc (i + j)) (fdiv v w) (y / z)" by (simp add: v w)
qed

lemma approx_fadd:
  assumes "approx i v y" and "approx i w z" and "in_range (y + z)" and "i \<le> 7"
  shows "approx (Suc i) (fadd v w) (y + z)"
proof -
  from assms(1) obtain x where v: "v = Fin x" and cx: "rel_close i x y" by (rule approx_FinE)
  from assms(2) obtain x' where w: "w = Fin x'" and cx': "rel_close i x' z" by (rule approx_FinE)
  have "rel_close i (x + x') (y + z)" using cx cx' by (rule rel_close_add)
  with assms(3) have "approx (Suc i) (to_double (x + x')) (y + z)" using assms(4) by (rule approx_round)
  then show ?thesis by (simp add: v w)
qed

section \<open>Properties of the constructor\<close>

subsection \<open>The divisions\<close>

lemma of_int_le_pow63: "n \<le> 2 ^ 63 \<Longrightarrow> (of_int n :: rat) \<le> 2 ^ 63"
proof -
  assume "n \<le> 2 ^ 63"
  then have "(of_int n :: rat) \<le> of_int (2 ^ 63)" by (simp only: of_int_le_iff)
  then show ?thesis by simp
qed

lemma quotient_bounds:
  assumes "0 \<le> m" and "m \<le> 2 ^ 63" and "1 \<le> n"
  shows "0 \<le> (of_int m :: rat) / of_int n" and "(of_int m :: rat) / of_int n \<le> 2 ^ 63"
proof -
  have n: "(1::rat) \<le> of_int n" using assms(3) by simp
  have m: "(0::rat) \<le> of_int m" "(of_int m :: rat) \<le> 2 ^ 63"
    using assms(1) of_int_le_pow63 [OF assms(2)] by simp_all
  show "0 \<le> (of_int m :: rat) / of_int n" using m(1) n by simp
  have "(of_int m :: rat) / of_int n \<le> of_int m / 1"
    using m(1) n by (intro divide_left_mono) simp_all
  with m(2) show "(of_int m :: rat) / of_int n \<le> 2 ^ 63" by simp
qed

lemma nearest_double_ge_one:
  assumes "1 \<le> x"
  shows "1 \<le> nearest_double x"
proof -
  have "pow2 (- 1022) \<le> 1" by (simp add: pow2_def)
  with assms have n: "pow2 (- 1022) \<le> x" by simp
  have x: "0 < x" using assms by simp
  have "pow2 0 \<le> x" using assms by (simp add: pow2_def)
  also have "x < pow2 (ilog2 x + 1)" using ilog2_bounds(2) [OF x] .
  finally have "0 \<le> ilog2 x" using pow2_less_cancel [of 0 "ilog2 x + 1"] by simp
  then have "pow2 0 \<le> pow2 (ilog2 x)" by (rule pow2_mono)
  also have "\<dots> \<le> nearest_double x" using nearest_double_normal(2) [OF n] .
  finally show ?thesis by (simp add: pow2_def)
qed

lemma nearest_double_bounds:
  assumes "0 \<le> x" and "x \<le> 2 ^ m" and "m \<le> 1022"
  shows "to_double x = Fin (nearest_double x)" and "0 \<le> nearest_double x"
    and "nearest_double x \<le> 2 ^ Suc m"
proof -
  have "(2::rat) ^ m \<le> 2 ^ 1022" using assms(3) by (intro power_increasing) simp_all
  with assms(1,2) have "\<bar>x\<bar> \<le> 2 ^ 1022" by simp
  then show "to_double x = Fin (nearest_double x)" by (rule to_double_finite)
  show "0 \<le> nearest_double x" using assms(1) by (rule nearest_double_nonneg)
  have "\<bar>nearest_double x\<bar> \<le> 2 * \<bar>x\<bar>" by (rule nearest_double_le_double)
  with assms(1,2) show "nearest_double x \<le> 2 ^ Suc m" by simp
qed

lemma truediv_mean:
  assumes "1 \<le> r" and "r \<le> n" and "n \<le> 2 ^ 63"
  shows "\<exists>v. truediv (PyInt n) (PyInt r) = Inr v \<and> mean_ok r v"
proof -
  define q :: rat where "q = of_int n / of_int r"
  have n0: "0 \<le> n" using assms(1,2) by simp
  have q: "0 \<le> q" "q \<le> 2 ^ 63" using quotient_bounds [OF n0 assms(3,1)] by (simp_all add: q_def)
  have "(of_int r :: rat) \<le> of_int n" using assms(2) by (simp only: of_int_le_iff)
  moreover have "(0::rat) < of_int r" using assms(1) by simp
  ultimately have q1: "1 \<le> q" by (simp add: q_def)
  have d: "to_double q = Fin (nearest_double q)" and "nearest_double q \<le> 2 ^ Suc 63"
    using nearest_double_bounds [OF q] by simp_all
  then have hi: "nearest_double q \<le> 2 ^ 64" by simp
  have lo: "1 \<le> nearest_double q" using q1 by (rule nearest_double_ge_one)
  have "truediv (PyInt n) (PyInt r) = Inr (Fin (nearest_double q))"
    using assms(1) d by (simp add: finite_or_overflow_def q_def)
  moreover have "mean_ok r (Fin (nearest_double q))"
    using assms(1) lo hi by (simp add: mean_ok_def)
  ultimately show ?thesis by blast
qed

lemma truediv_ratio:
  assumes "0 \<le> n" and "n \<le> 2 ^ 63" and "0 \<le> t"
  shows "\<exists>v. truediv (PyInt n) (py_or t (Fin 1)) = Inr v \<and> ratio_ok n v"
proof (cases "t = 0")
  case True
  define x :: rat where "x = nearest_double (of_int n)"
  have n: "(0::rat) \<le> of_int n" "(of_int n :: rat) \<le> 2 ^ 63"
    using assms(1) of_int_le_pow63 [OF assms(2)] by simp_all
  have d: "to_double (of_int n) = Fin x" and x: "0 \<le> x" "x \<le> 2 ^ Suc 63"
    using nearest_double_bounds [OF n] by (simp_all add: x_def)
  have d2: "to_double x = Fin (nearest_double x)" and y: "0 \<le> nearest_double x"
    "nearest_double x \<le> 2 ^ Suc (Suc 63)"
    using nearest_double_bounds [OF x] by simp_all
  have "truediv (PyInt n) (py_or t (Fin 1)) = Inr (Fin (nearest_double x))"
    using True d d2 by (simp add: py_or_def int_to_float_def finite_or_overflow_def float_div_def)
  moreover have "n = 0 \<longrightarrow> nearest_double x = 0" by (simp add: x_def)
  then have "ratio_ok n (Fin (nearest_double x))" using y by (simp add: ratio_ok_def)
  ultimately show ?thesis by blast
next
  case False
  with assms(3) have t: "1 \<le> t" by simp
  define q :: rat where "q = of_int n / of_int t"
  have q: "0 \<le> q" "q \<le> 2 ^ 63" using quotient_bounds [OF assms(1,2) t] by (simp_all add: q_def)
  have d: "to_double q = Fin (nearest_double q)" and y: "0 \<le> nearest_double q"
    "nearest_double q \<le> 2 ^ Suc 63"
    using nearest_double_bounds [OF q] by simp_all
  have "(2::rat) ^ Suc 63 \<le> 2 ^ 65" by simp
  with y(2) have y2: "nearest_double q \<le> 2 ^ 65" by (rule order_trans)
  have "truediv (PyInt n) (py_or t (Fin 1)) = Inr (Fin (nearest_double q))"
    using False d by (simp add: py_or_def finite_or_overflow_def q_def)
  moreover have "n = 0 \<longrightarrow> nearest_double q = 0" by (simp add: q_def)
  then have "ratio_ok n (Fin (nearest_double q))" using y(1) y2 by (simp add: ratio_ok_def)
  ultimately show ?thesis by blast
qed

lemma in_range_hundred: "in_range 100"
  by (simp add: in_range_def)

lemma truediv_total_runs:
  assumes "0 \<le> R" and "R \<le> 2 ^ 63"
  shows "\<exists>tr. truediv (PyInt R) (PyFloat (Fin 100)) = Inr tr \<and> approx 2 tr (of_int R / 100)"
proof -
  define N where "N = to_double (of_int R)"
  have N: "int_to_float R = Inr N" "approx 1 N (of_int R)"
    using approx_int [OF assms] by (simp_all add: N_def)
  have h: "approx 0 (Fin 100) 100" using in_range_hundred by (rule approx_Fin)
  have r: "in_range (of_int R / 100)"
  proof (cases "R = 0")
    case True
    then show ?thesis by (simp add: in_range_def)
  next
    case False
    with assms(1) have "(1::rat) \<le> of_int R" by simp
    then have "(1::rat) / 100 \<le> of_int R / 100" by simp
    moreover have "(1::rat) / 2 ^ 1000 \<le> 1 / 100" by simp
    moreover have "(of_int R :: rat) / 100 \<le> 2 ^ 63 / 100"
      using of_int_le_pow63 [OF assms(2)] by simp
    moreover have "(2::rat) ^ 63 / 100 \<le> 2 ^ 1000" by simp
    ultimately show ?thesis unfolding in_range_def by linarith
  qed
  have "Suc (1 + 0) = 2" by simp
  then have "float_div N (Fin 100) = Inr (fdiv N (Fin 100))"
    and "approx 2 (fdiv N (Fin 100)) (of_int R / 100)"
    using approx_float_div [OF N(2) h _ r] by (simp_all add: eval_nat_numeral)
  then show ?thesis using N(1) by simp
qed

lemma truediv_percentage:
  assumes "approx 2 tr (of_int R / 100)" and "0 \<le> n" and "n \<le> R" and "1 \<le> R" and "R \<le> 2 ^ 63"
  shows "\<exists>v. truediv (PyInt n) (PyFloat tr) = Inr v \<and> approx 4 v (100 * of_int n / of_int R)"
proof -
  define N where "N = to_double (of_int n)"
  have n63: "n \<le> 2 ^ 63" using assms(3,5) by simp
  have N: "int_to_float n = Inr N" "approx 1 N (of_int n)"
    using approx_int [OF assms(2) n63] by (simp_all add: N_def)
  have Rpos: "(1::rat) \<le> of_int R" using assms(4) by simp
  have pos: "(0::rat) < of_int R / 100" using Rpos by simp
  have eq: "(of_int n :: rat) / (of_int R / 100) = 100 * of_int n / of_int R" by simp
  have r: "in_range (100 * of_int n / of_int R)"
  proof (cases "n = 0")
    case True
    then show ?thesis by (simp add: in_range_def)
  next
    case False
    with assms(2) have n1: "(1::rat) \<le> of_int n" by simp
    have R63: "(of_int R :: rat) \<le> 2 ^ 63" using assms(5) by (rule of_int_le_pow63)
    have nR: "(of_int n :: rat) \<le> of_int R" using assms(3) by (simp only: of_int_le_iff)
    have "(1::rat) / 2 ^ 1000 \<le> 100 * 1 / 2 ^ 63" by simp
    also have "\<dots> \<le> 100 * 1 / of_int R" using R63 Rpos by (intro divide_left_mono) simp_all
    also have "\<dots> \<le> 100 * of_int n / of_int R" using n1 Rpos by (intro divide_right_mono) simp_all
    finally have lo: "(1::rat) / 2 ^ 1000 \<le> 100 * of_int n / of_int R" .
    have "100 * (of_int n :: rat) / of_int R \<le> 100" using nR Rpos by (simp add: field_simps)
    also have "\<dots> \<le> (2::rat) ^ 1000" by simp
    finally show ?thesis using lo unfolding in_range_def by simp
  qed
  then have r': "in_range ((of_int n :: rat) / (of_int R / 100))" by (simp only: eq)
  have "Suc (1 + 2) = 4" by simp
  then have "float_div N tr = Inr (fdiv N tr)"
    and "approx 4 (fdiv N tr) (of_int n / (of_int R / 100))"
    using approx_float_div [OF N(2) assms(1) pos r'] by (simp_all add: eval_nat_numeral)
  then have "truediv (PyInt n) (PyFloat tr) = Inr (fdiv N tr)"
    and "approx 4 (fdiv N tr) (100 * of_int n / of_int R)"
    using N(1) by (simp_all only: eq) simp_all
  then show ?thesis by blast
qed

subsection \<open>The result of the constructor\<close>

lemma finalize_result:
  assumes "truediv (PyInt (ar s + hr s + cr s + kr s)) (PyFloat (Fin 100)) = Inr tr"
    and "tr \<noteq> Fin 0 \<longrightarrow> truediv (PyInt (ar s)) (PyFloat tr) = Inr v1"
    and "tr \<noteq> Fin 0 \<longrightarrow> truediv (PyInt (hr s)) (PyFloat tr) = Inr v2"
    and "tr \<noteq> Fin 0 \<longrightarrow> truediv (PyInt (cr s)) (PyFloat tr) = Inr v3"
    and "tr \<noteq> Fin 0 \<longrightarrow> truediv (PyInt (kr s)) (PyFloat tr) = Inr v4"
    and "ar s \<noteq> 0 \<longrightarrow> truediv (PyInt (a s)) (PyInt (ar s)) = Inr w1"
    and "hr s \<noteq> 0 \<longrightarrow> truediv (PyInt (h s)) (PyInt (hr s)) = Inr w2"
    and "cr s \<noteq> 0 \<longrightarrow> truediv (PyInt (c s)) (PyInt (cr s)) = Inr w3"
    and "kr s \<noteq> 0 \<longrightarrow> truediv (PyInt (k s)) (PyInt (kr s)) = Inr w4"
    and "truediv (PyInt (tt s)) (py_or (tk s) (Fin 1)) = Inr q1"
    and "truediv (PyInt (a s + h s + c s + k s)) (py_or (tk s) (Fin 1)) = Inr q2"
  shows "finalize self0 s = Inr
     \<lparr>pa = (if tr \<noteq> Fin 0 then v1 else pa self0), ph = (if tr \<noteq> Fin 0 then v2 else ph self0),
      pc = (if tr \<noteq> Fin 0 then v3 else pc self0), pk = (if tr \<noteq> Fin 0 then v4 else pk self0),
      la = (if ar s \<noteq> 0 then w1 else la self0), lh = (if hr s \<noteq> 0 then w2 else lh self0),
      lc = (if cr s \<noteq> 0 then w3 else lc self0), lk = (if kr s \<noteq> 0 then w4 else lk self0),
      ls = q2, cp = q1\<rparr>"
proof -
  define self1 where "self1 = (if tr \<noteq> Fin 0 then self0\<lparr>pa := v1, ph := v2, pc := v3, pk := v4\<rparr> else self0)"
  define self2 where "self2 = (if ar s \<noteq> 0 then self1\<lparr>la := w1\<rparr> else self1)"
  define self3 where "self3 = (if hr s \<noteq> 0 then self2\<lparr>lh := w2\<rparr> else self2)"
  define self4 where "self4 = (if cr s \<noteq> 0 then self3\<lparr>lc := w3\<rparr> else self3)"
  define self5 where "self5 = (if kr s \<noteq> 0 then self4\<lparr>lk := w4\<rparr> else self4)"
  have p: "(if tr \<noteq> Fin 0 then
          and_then (truediv (PyInt (ar s)) (PyFloat tr)) (\<lambda>v1.
          and_then (truediv (PyInt (hr s)) (PyFloat tr)) (\<lambda>v2.
          and_then (truediv (PyInt (cr s)) (PyFloat tr)) (\<lambda>v3.
          and_then (truediv (PyInt (kr s)) (PyFloat tr)) (\<lambda>v4.
          Inr (self0\<lparr>pa := v1, ph := v2, pc := v3, pk := v4\<rparr>)))))
        else Inr self0) = Inr self1"
    using assms(2-5) by (simp add: and_then_def self1_def)
  have l1: "(if ar s \<noteq> 0
        then and_then (truediv (PyInt (a s)) (PyInt (ar s))) (\<lambda>v. Inr (self1\<lparr>la := v\<rparr>))
        else Inr self1) = Inr self2"
    using assms(6) by (simp add: and_then_def self2_def)
  have l2: "(if hr s \<noteq> 0
        then and_then (truediv (PyInt (h s)) (PyInt (hr s))) (\<lambda>v. Inr (self2\<lparr>lh := v\<rparr>))
        else Inr self2) = Inr self3"
    using assms(7) by (simp add: and_then_def self3_def)
  have l3: "(if cr s \<noteq> 0
        then and_then (truediv (PyInt (c s)) (PyInt (cr s))) (\<lambda>v. Inr (self3\<lparr>lc := v\<rparr>))
        else Inr self3) = Inr self4"
    using assms(8) by (simp add: and_then_def self4_def)
  have l4: "(if kr s \<noteq> 0
        then and_then (truediv (PyInt (k s)) (PyInt (kr s))) (\<lambda>v. Inr (self4\<lparr>lk := v\<rparr>))
        else Inr self4) = Inr self5"
    using assms(9) by (simp add: and_then_def self5_def)
  have bind: "and_then (Inr v) f = f v" for v :: 'a and f :: "'a \<Rightarrow> error + 'b"
    by (simp add: and_then_def)
  have "finalize self0 s = Inr (self5\<lparr>cp := q1, ls := q2\<rparr>)"
    unfolding finalize_def Let_def assms(1) bind p l1 l2 l3 l4 assms(10,11) ..
  also have "self5\<lparr>cp := q1, ls := q2\<rparr> =
     \<lparr>pa = (if tr \<noteq> Fin 0 then v1 else pa self0), ph = (if tr \<noteq> Fin 0 then v2 else ph self0),
      pc = (if tr \<noteq> Fin 0 then v3 else pc self0), pk = (if tr \<noteq> Fin 0 then v4 else pk self0),
      la = (if ar s \<noteq> 0 then w1 else la self0), lh = (if hr s \<noteq> 0 then w2 else lh self0),
      lc = (if cr s \<noteq> 0 then w3 else lc self0), lk = (if kr s \<noteq> 0 then w4 else lk self0),
      ls = q2, cp = q1\<rparr>"
    by (cases self0) (simp add: self5_def self4_def self3_def self2_def self1_def)
  finally show ?thesis .
qed

lemma Tateisi_class_sel:
  "pa Tateisi_class = Fin 0" "ph Tateisi_class = Fin 0" "pc Tateisi_class = Fin 0"
  "pk Tateisi_class = Fin 0" "la Tateisi_class = Fin 0" "lh Tateisi_class = Fin 0"
  "lc Tateisi_class = Fin 0" "lk Tateisi_class = Fin 0" "ls Tateisi_class = Fin 0"
  "cp Tateisi_class = Fin 0"
  by (simp_all add: Tateisi_class_def)

lemma mean_step:
  assumes "0 \<le> r" and "r \<le> n" and "n \<le> 2 ^ 63"
  shows "\<exists>w. (r \<noteq> 0 \<longrightarrow> truediv (PyInt n) (PyInt r) = Inr w)
             \<and> mean_ok r (if r \<noteq> 0 then w else Fin 0)"
proof (cases "r = 0")
  case True
  then show ?thesis by (simp add: mean_ok_def)
next
  case False
  with assms(1) have "1 \<le> r" by simp
  from truediv_mean [OF this assms(2,3)] False show ?thesis by auto
qed

lemma percent_step:
  assumes "approx 2 tr (of_int R / 100)" and "0 \<le> n" and "n \<le> R" and "R \<le> 2 ^ 63"
  shows "\<exists>v. (tr \<noteq> Fin 0 \<longrightarrow> truediv (PyInt n) (PyFloat tr) = Inr v)
             \<and> percent_ok n R (if tr \<noteq> Fin 0 then v else Fin 0)"
proof (cases "R = 0")
  case True
  with assms(1) have "tr = Fin 0" by (simp add: approx_zero)
  with True show ?thesis by (simp add: percent_ok_def)
next
  case False
  with assms(2,3) have R: "1 \<le> R" by simp
  from assms(1) obtain x where tr: "tr = Fin x" and c: "rel_close 2 x (of_int R / 100)"
    by (rule approx_FinE)
  have "(0::rat) < of_int R / 100" using R by simp
  then have "0 < of_int R / 100 * shrink 2" using shrink_pos [of 2] by simp
  with c have "0 < x" by (simp add: rel_close_def)
  then have nz: "tr \<noteq> Fin 0" by (simp add: tr)
  from truediv_percentage [OF assms(1,2,3) R assms(4)] nz False
  show ?thesis by (auto simp add: percent_ok_def)
qed

lemma finalize_ok:
  assumes "counts_ok s" and "total s \<le> 2 ^ 63"
  shows "\<exists>st. finalize Tateisi_class s = Inr st \<and> stats_ok s st"
proof -
  define R where "R = ar s + hr s + cr s + kr s"
  define n where "n = a s + h s + c s + k s"
  have ok: "0 \<le> ar s" "ar s \<le> a s" "0 \<le> hr s" "hr s \<le> h s" "0 \<le> cr s" "cr s \<le> c s"
    "0 \<le> kr s" "kr s \<le> k s" "0 \<le> tt s" "0 \<le> tk s"
    using assms(1) by (simp_all add: counts_ok_def)
  have b: "a s + h s + c s + k s + tt s + tk s \<le> 2 ^ 63" using assms(2) by (simp add: total_def)
  have R: "0 \<le> R" "R \<le> 2 ^ 63" "ar s \<le> R" "hr s \<le> R" "cr s \<le> R" "kr s \<le> R"
    using ok b by (simp_all add: R_def)
  have n: "0 \<le> n" "n \<le> 2 ^ 63" using ok b by (simp_all add: n_def)
  have cnt: "a s \<le> 2 ^ 63" "h s \<le> 2 ^ 63" "c s \<le> 2 ^ 63" "k s \<le> 2 ^ 63" "tt s \<le> 2 ^ 63"
    using ok b by simp_all
  from truediv_total_runs [OF R(1,2)] obtain tr
    where tr: "truediv (PyInt R) (PyFloat (Fin 100)) = Inr tr" "approx 2 tr (of_int R / 100)"
    by blast
  from percent_step [OF tr(2) ok(1) R(3) R(2)] obtain v1
    where v1: "tr \<noteq> Fin 0 \<longrightarrow> truediv (PyInt (ar s)) (PyFloat tr) = Inr v1"
      "percent_ok (ar s) R (if tr \<noteq> Fin 0 then v1 else Fin 0)" by blast
  from percent_step [OF tr(2) ok(3) R(4) R(2)] obtain v2
    where v2: "tr \<noteq> Fin 0 \<longrightarrow> truediv (PyInt (hr s)) (PyFloat tr) = Inr v2"
      "percent_ok (hr s) R (if tr \<noteq> Fin 0 then v2 else Fin 0)" by blast
  from percent_step [OF tr(2) ok(5) R(5) R(2)] obtain v3
    where v3: "tr \<noteq> Fin 0 \<longrightarrow> truediv (PyInt (cr s)) (PyFloat tr) = Inr v3"
      "percent_ok (cr s) R (if tr \<noteq> Fin 0 then v3 else Fin 0)" by blast
  from percent_step [OF tr(2) ok(7) R(6) R(2)] obtain v4
    where v4: "tr \<noteq> Fin 0 \<longrightarrow> truediv (PyInt (kr s)) (PyFloat tr) = Inr v4"
      "percent_ok (kr s) R (if tr \<noteq> Fin 0 then v4 else Fin 0)" by blast
  from mean_step [OF ok(1,2) cnt(1)] obtain w1
    where w1: "ar s \<noteq> 0 \<longrightarrow> truediv (PyInt (a s)) (PyInt (ar s)) = Inr w1"
      "mean_ok (ar s) (if ar s \<noteq> 0 then w1 else Fin 0)" by blast
  from mean_step [OF ok(3,4) cnt(2)] obtain w2
    where w2: "hr s \<noteq> 0 \<longrightarrow> truediv (PyInt (h s)) (PyInt (hr s)) = Inr w2"
      "mean_ok (hr s) (if hr s \<noteq> 0 then w2 else Fin 0)" by blast
  from mean_step [OF ok(5,6) cnt(3)] obtain w3
    where w3: "cr s \<noteq> 0 \<longrightarrow> truediv (PyInt (c s)) (PyInt (cr s)) = Inr w3"
      "mean_ok (cr s) (if cr s \<noteq> 0 then w3 else Fin 0)" by blast
  from mean_step [OF ok(7,8) cnt(4)] obtain w4
    where w4: "kr s \<noteq> 0 \<longrightarrow> truediv (PyInt (k s)) (PyInt (kr s)) = Inr w4"
      "mean_ok (kr s) (if kr s \<noteq> 0 then w4 else Fin 0)" by blast
  from truediv_ratio [OF ok(9) cnt(5) ok(10)] obtain q1
    where q1: "truediv (PyInt (tt s)) (py_or (tk s) (Fin 1)) = Inr q1" "ratio_ok (tt s) q1"
    by blast
  from truediv_ratio [OF n ok(10)] obtain q2
    where q2: "truediv (PyInt n) (py_or (tk s) (Fin 1)) = Inr q2" "ratio_ok n q2"
    by blast
  have "finalize Tateisi_class s = Inr
     \<lparr>pa = (if tr \<noteq> Fin 0 then v1 else pa Tateisi_class),
      ph = (if tr \<noteq> Fin 0 then v2 else ph Tateisi_class),
      pc = (if tr \<noteq> Fin 0 then v3 else pc Tateisi_class),
      pk = (if tr \<noteq> Fin 0 then v4 else pk Tateisi_class),
      la = (if ar s \<noteq> 0 then w1 else la Tateisi_class),
      lh = (if hr s \<noteq> 0 then w2 else lh Tateisi_class),
      lc = (if cr s \<noteq> 0 then w3 else lc Tateisi_class),
      lk = (if kr s \<noteq> 0 then w4 else lk Tateisi_class),
      ls = q2, cp = q1\<rparr>"
    using tr(1) v1(1) v2(1) v3(1) v4(1) w1(1) w2(1) w3(1) w4(1) q1(1) q2(1)
    unfolding R_def n_def by (rule finalize_result)
  moreover have "stats_ok s
     \<lparr>pa = (if tr \<noteq> Fin 0 then v1 else pa Tateisi_class),
      ph = (if tr \<noteq> Fin 0 then v2 else ph Tateisi_class),
      pc = (if tr \<noteq> Fin 0 then v3 else pc Tateisi_class),
      pk = (if tr \<noteq> Fin 0 then v4 else pk Tateisi_class),
      la = (if ar s \<noteq> 0 then w1 else la Tateisi_class),
      lh = (if hr s \<noteq> 0 then w2 else lh Tateisi_class),
      lc = (if cr s \<noteq> 0 then w3 else lc Tateisi_class),
      lk = (if kr s \<noteq> 0 then w4 else lk Tateisi_class),
      ls = q2, cp = q1\<rparr>"
    using v1(2) v2(2) v3(2) v4(2) w1(2) w2(2) w3(2) w4(2) q1(2) q2(2)
    unfolding stats_ok_def R_def n_def
    by (simp only: Statistics.select_convs Tateisi_class_sel simp_thms)
  ultimately show ?thesis by blast
qed

lemma scan_ok:
  assumes "length txt < 2 ^ 63"
  shows "counts_ok (scan initial txt)" and "total (scan initial txt) \<le> 2 ^ 63"
proof -
  show "counts_ok (scan initial txt)" using counts_ok_initial by (rule counts_ok_scan)
  have "int (length txt) < int (2 ^ 63)" using assms by (simp only: of_nat_less_iff)
  then have "int (length txt) \<le> 2 ^ 63" by simp
  with total_scan [of initial "txt"] show "total (scan initial txt) \<le> 2 ^ 63"
    by (simp add: total_initial)
qed

lemma Tateisi_init_ok:
  assumes "length txt < 2 ^ 63"
  shows "\<exists>st. Tateisi_init txt = Inr st \<and> stats_ok (scan initial txt) st"
  unfolding Tateisi_init_def using scan_ok [OF assms] by (rule finalize_ok)

subsection \<open>Every division is guarded\<close>

lemma finite_or_overflow_cases:
  "finite_or_overflow v = Inl OverflowError \<or> (\<exists>r. finite_or_overflow v = Inr (Fin r))"
  by (cases v) (simp_all add: finite_or_overflow_def)

lemma int_to_float_cases:
  "int_to_float n = Inl OverflowError \<or> (\<exists>r. int_to_float n = Inr (Fin r))"
  unfolding int_to_float_def by (rule finite_or_overflow_cases)

lemma truediv_int_float_guarded:
  "y \<noteq> Fin 0 \<Longrightarrow> truediv (PyInt m) (PyFloat y) \<noteq> Inl ZeroDivisionError"
  using int_to_float_cases [of m] by (auto simp add: float_div_def)

lemma truediv_int_int_guarded:
  "n \<noteq> 0 \<Longrightarrow> truediv (PyInt m) (PyInt n) \<noteq> Inl ZeroDivisionError"
  using finite_or_overflow_cases [of "to_double (of_int m / of_int n)"] by auto

lemma truediv_or_guarded: "truediv (PyInt m) (py_or t (Fin 1)) \<noteq> Inl ZeroDivisionError"
proof (cases "t = 0")
  case True
  have "Fin 1 \<noteq> Fin 0" by simp
  then have "truediv (PyInt m) (PyFloat (Fin 1)) \<noteq> Inl ZeroDivisionError"
    by (rule truediv_int_float_guarded)
  with True show ?thesis by (simp add: py_or_def)
next
  case False
  then have "truediv (PyInt m) (PyInt t) \<noteq> Inl ZeroDivisionError"
    by (rule truediv_int_int_guarded)
  with False show ?thesis by (simp add: py_or_def)
qed

lemma and_then_guarded:
  assumes "m \<noteq> Inl ZeroDivisionError"
    and "\<And>v. m = Inr v \<Longrightarrow> f v \<noteq> Inl ZeroDivisionError"
  shows "and_then m f \<noteq> Inl ZeroDivisionError"
  using assms by (cases m) (simp_all add: and_then_def)

lemma finalize_guarded: "finalize self0 s \<noteq> Inl ZeroDivisionError"
proof -
  have hundred: "Fin 100 \<noteq> Fin 0" by simp
  have mean: "(if r \<noteq> 0 then and_then (truediv (PyInt n) (PyInt r)) (\<lambda>v. Inr (g v)) else Inr z)
      \<noteq> Inl ZeroDivisionError" for r n z and g :: "pyfloat \<Rightarrow> Statistics"
  proof (cases "r = 0")
    case True
    then show ?thesis by simp
  next
    case False
    show ?thesis unfolding if_P [OF False]
      by (rule and_then_guarded [OF truediv_int_int_guarded [OF False]]) simp
  qed
  have last: "and_then (truediv (PyInt n) d) (\<lambda>w. Inr (g w)) \<noteq> Inl ZeroDivisionError"
    if "truediv (PyInt n) d \<noteq> Inl ZeroDivisionError" for n d and g :: "pyfloat \<Rightarrow> Statistics"
    using that by (rule and_then_guarded) simp
  have percent: "(if tr \<noteq> Fin 0 then
          and_then (truediv (PyInt n1) (PyFloat tr)) (\<lambda>v1.
          and_then (truediv (PyInt n2) (PyFloat tr)) (\<lambda>v2.
          and_then (truediv (PyInt n3) (PyFloat tr)) (\<lambda>v3.
          and_then (truediv (PyInt n4) (PyFloat tr)) (\<lambda>v4.
          Inr (g v1 v2 v3 v4)))))
        else Inr z) \<noteq> Inl ZeroDivisionError"
    for tr n1 n2 n3 n4 z and g :: "pyfloat \<Rightarrow> pyfloat \<Rightarrow> pyfloat \<Rightarrow> pyfloat \<Rightarrow> Statistics"
  proof (cases "tr = Fin 0")
    case True
    then show ?thesis by simp
  next
    case False
    show ?thesis unfolding if_P [OF False]
      by (intro and_then_guarded truediv_int_float_guarded False last)
  qed
  show ?thesis
    unfolding finalize_def Let_def
    by (intro and_then_guarded truediv_int_float_guarded hundred mean percent truediv_or_guarded last)
qed

subsection \<open>Finite floats of bounded magnitude\<close>

lemma fboundedE:
  assumes "fbounded m v"
  obtains x where "v = Fin x" and "\<bar>x\<bar> \<le> 2 ^ m"
  using assms by (cases v) (auto simp add: fbounded_def)

lemma fbounded_mono: "fbounded i v \<Longrightarrow> i \<le> j \<Longrightarrow> fbounded j v"
proof -
  assume "fbounded i v" and ij: "i \<le> j"
  then obtain x where v: "v = Fin x" and x: "\<bar>x\<bar> \<le> 2 ^ i" by (auto elim: fboundedE)
  have "(2::rat) ^ i \<le> 2 ^ j" using ij by (intro power_increasing) simp_all
  with x have "\<bar>x\<bar> \<le> 2 ^ j" by (rule order_trans)
  then show ?thesis by (simp add: v fbounded_def)
qed

lemma fbounded_round:
  assumes "\<bar>x\<bar> \<le> 2 ^ m" and "m \<le> 1022"
  shows "fbounded (Suc m) (to_double x)"
proof -
  have "(2::rat) ^ m \<le> 2 ^ 1022" using assms(2) by (intro power_increasing) simp_all
  with assms(1) have "\<bar>x\<bar> \<le> 2 ^ 1022" by simp
  then have "to_double x = Fin (nearest_double x)" by (rule to_double_finite)
  moreover have "\<bar>nearest_double x\<bar> \<le> 2 * \<bar>x\<bar>" by (rule nearest_double_le_double)
  with assms(1) have "\<bar>nearest_double x\<bar> \<le> 2 ^ Suc m" by simp
  ultimately show ?thesis by (simp add: fbounded_def)
qed

lemma fbounded_lit: "\<bar>x\<bar> \<le> 2 ^ 7 \<Longrightarrow> fbounded 8 (lit x)"
  using fbounded_round [of x 7] by (simp add: lit_def eval_nat_numeral)

lemma fbounded_fneg: "fbounded m v \<Longrightarrow> fbounded m (fneg v)"
  by (cases v) (simp_all add: fbounded_def)

lemma fbounded_fmul:
  assumes "fbounded i v" and "fbounded j w" and "i + j \<le> 1022"
  shows "fbounded (Suc (i + j)) (fmul v w)"
proof -
  from assms(1) obtain x where v: "v = Fin x" and x: "\<bar>x\<bar> \<le> 2 ^ i" by (rule fboundedE)
  from assms(2) obtain y where w: "w = Fin y" and y: "\<bar>y\<bar> \<le> 2 ^ j" by (rule fboundedE)
  have "\<bar>x * y\<bar> = \<bar>x\<bar> * \<bar>y\<bar>" by (rule abs_mult)
  also have "\<dots> \<le> 2 ^ i * 2 ^ j" using x y by (intro mult_mono) simp_all
  finally have "\<bar>x * y\<bar> \<le> 2 ^ (i + j)" by (simp add: power_add)
  then have "fbounded (Suc (i + j)) (to_double (x * y))" using assms(3) by (rule fbounded_round)
  then show ?thesis by (simp add: v w)
qed

lemma fbounded_fadd:
  assumes "fbounded i v" and "fbounded i w" and "i \<le> 1021"
  shows "fbounded (i + 2) (fadd v w)"
proof -
  from assms(1) obtain x where v: "v = Fin x" and x: "\<bar>x\<bar> \<le> 2 ^ i" by (rule fboundedE)
  from assms(2) obtain y where w: "w = Fin y" and y: "\<bar>y\<bar> \<le> 2 ^ i" by (rule fboundedE)
  have "\<bar>x + y\<bar> \<le> 2 ^ Suc i" using x y by simp
  moreover have "Suc i \<le> 1022" using assms(3) by simp
  ultimately have "fbounded (Suc (Suc i)) (to_double (x + y))" by (rule fbounded_round)
  then show ?thesis by (simp add: v w)
qed

lemma fbounded_fsub:
  assumes "fbounded i v" and "fbounded i w" and "i \<le> 1021"
  shows "fbounded (i + 2) (fsub v w)"
  using fbounded_fadd [OF assms(1) fbounded_fneg [OF assms(2)] assms(3)]
  by (simp add: fadd_fneg)

text \<open>A term of a score: a coefficient of magnitude at most 128 times a statistic.\<close>

lemma fbounded_term:
  assumes "\<bar>cf\<bar> \<le> 2 ^ 7" and "fbounded 66 v"
  shows "fbounded 75 (fmul (lit cf) v)"
  using fbounded_fmul [OF fbounded_lit [OF assms(1)] assms(2)] by simp

lemma fbounded_add_terms:
  assumes "fbounded m acc" and "\<forall>t\<in>set ts. \<bar>fst t\<bar> \<le> 2 ^ 7 \<and> fbounded 66 (snd t)"
    and "75 \<le> m" and "m + 2 * length ts \<le> 1021"
  shows "fbounded (m + 2 * length ts) (add_terms acc ts)"
  using assms
proof (induction ts arbitrary: m acc)
  case Nil
  then show ?case by simp
next
  case (Cons t ts)
  obtain cf v where t: "t = (cf, v)" by (cases t)
  have tm: "fbounded m (fmul (lit cf) v)" "fbounded m (fmul (lit (- cf)) v)"
    using Cons.prems(2,3) fbounded_term [of cf v] fbounded_term [of "- cf" v]
    by (auto simp add: t intro: fbounded_mono)
  have m: "m \<le> 1021" using Cons.prems(4) by simp
  define acc' where "acc' = (if 0 \<le> cf then fadd acc (fmul (lit cf) v)
    else fsub acc (fmul (lit (- cf)) v))"
  have "fbounded (m + 2) acc'"
    using fbounded_fadd [OF Cons.prems(1) tm(1) m] fbounded_fsub [OF Cons.prems(1) tm(2) m]
    by (simp add: acc'_def)
  moreover have "\<forall>t\<in>set ts. \<bar>fst t\<bar> \<le> 2 ^ 7 \<and> fbounded 66 (snd t)" using Cons.prems(2) by simp
  moreover have "75 \<le> m + 2" using Cons.prems(3) by simp
  moreover have "m + 2 + 2 * length ts \<le> 1021" using Cons.prems(4) by simp
  ultimately have "fbounded (m + 2 + 2 * length ts) (add_terms acc' ts)" by (rule Cons.IH)
  then show ?case by (simp add: t acc'_def)
qed

lemma fbounded_signed_terms:
  assumes "\<forall>t\<in>set ts. \<bar>fst t\<bar> \<le> 2 ^ 7 \<and> fbounded 66 (snd t)" and "\<bar>cst\<bar> \<le> 2 ^ 7"
    and "ts \<noteq> []" and "length ts \<le> 100"
  shows "fbounded (75 + 2 * length ts) (signed_terms ts cst)"
proof -
  from assms(3) obtain t ts' where ts: "ts = t # ts'" by (cases ts) auto
  obtain cf v where t: "t = (cf, v)" by (cases t)
  define m where "m = 75 + 2 * length ts'"
  have first: "fbounded 75 (fmul (lit cf) v)"
    using assms(1) by (simp add: ts t fbounded_term)
  have rest: "\<forall>t\<in>set ts'. \<bar>fst t\<bar> \<le> 2 ^ 7 \<and> fbounded 66 (snd t)" using assms(1) by (simp add: ts)
  have len: "75 + 2 * length ts' \<le> 1021" using assms(4) by (simp add: ts)
  have acc: "fbounded m (add_terms (fmul (lit cf) v) ts')"
    unfolding m_def using first rest _ len by (rule fbounded_add_terms) simp
  have m: "m \<le> 1021" "8 \<le> m" using len by (simp_all add: m_def)
  have c: "fbounded m (lit cst)" "fbounded m (lit (- cst))"
    using fbounded_lit [of cst] fbounded_lit [of "- cst"] assms(2) m(2)
    by (auto intro: fbounded_mono)
  have "fbounded (m + 2) (signed_terms ts cst)"
    using fbounded_fadd [OF acc c(1) m(1)] fbounded_fsub [OF acc c(2) m(1)]
    by (simp add: ts t Let_def)
  then show ?thesis by (simp add: m_def ts)
qed

lemma scoreA_eq: "calculate_rs_tateisi_a s = scoreA s"
  by (simp add: calculate_rs_tateisi_a_def scoreA_def Let_def)

lemma scoreB_eq: "calculate_rs_tateisi_b s = scoreB s"
  by (simp add: calculate_rs_tateisi_b_def scoreB_def Let_def lit_minus fmul_fneg fadd_fneg)

lemma scores_finite:
  assumes "fbounded 66 (pa s)" "fbounded 66 (ph s)" "fbounded 66 (pc s)" "fbounded 66 (pk s)"
    "fbounded 66 (la s)" "fbounded 66 (lh s)" "fbounded 66 (lc s)" "fbounded 66 (lk s)"
    "fbounded 66 (ls s)" "fbounded 66 (cp s)"
  shows "fbounded 95 (calculate_rs_tateisi_a s)" and "fbounded 87 (calculate_rs_tateisi_b s)"
proof -
  have "fbounded 95 (scoreA s)"
    unfolding scoreA_def
    by (rule fbounded_mono [OF fbounded_signed_terms]) (simp_all add: assms)
  then show "fbounded 95 (calculate_rs_tateisi_a s)" by (simp add: scoreA_eq)
  have "fbounded 87 (scoreB s)"
    unfolding scoreB_def
    by (rule fbounded_mono [OF fbounded_signed_terms]) (simp_all add: assms)
  then show "fbounded 87 (calculate_rs_tateisi_b s)" by (simp add: scoreB_eq)
qed

subsection \<open>The statistics are bounded\<close>

lemma in_range_percent:
  assumes "0 \<le> n" and "n \<le> R" and "1 \<le> R"
  shows "(0::rat) \<le> 100 * of_int n / of_int R" and "(100::rat) * of_int n / of_int R \<le> 100"
proof -
  have R: "(0::rat) < of_int R" using assms(3) by simp
  have n: "(0::rat) \<le> of_int n" using assms(1) by simp
  have nR: "(of_int n :: rat) \<le> of_int R" using assms(2) by (simp only: of_int_le_iff)
  show "(0::rat) \<le> 100 * of_int n / of_int R" using R n by simp
  show "(100::rat) * of_int n / of_int R \<le> 100" using R nR by (simp add: field_simps)
qed

lemma approx_upper:
  assumes "approx n v y" and "n \<le> 8" and "y \<le> 2 ^ m"
  shows "fbounded (Suc m) v"
proof -
  from assms(1) obtain x where v: "v = Fin x" and c: "rel_close n x y" and r: "in_range y"
    by (rule approx_FinE)
  have x: "0 \<le> x" using c in_range_nonneg [OF r] by (rule rel_close_nonneg)
  have "x * (1 / 2) \<le> x * shrink n" using shrink_half [OF assms(2)] x by (intro mult_left_mono)
  also have "\<dots> \<le> y" using c by (simp add: rel_close_def)
  finally have "x \<le> 2 * 2 ^ m" using assms(3) by simp
  with x show ?thesis by (simp add: v fbounded_def)
qed

lemma percent_bounded:
  assumes "percent_ok n R v" and "0 \<le> n" and "n \<le> R"
  shows "fbounded 66 v"
proof (cases "R = 0")
  case True
  with assms(1) show ?thesis by (simp add: percent_ok_def fbounded_def)
next
  case False
  with assms(2,3) have R: "1 \<le> R" by simp
  from assms(1) False have a: "approx 4 v (100 * of_int n / of_int R)" by (simp add: percent_ok_def)
  have "(100::rat) * of_int n / of_int R \<le> 100" using assms(2,3) R by (rule in_range_percent)
  also have "(100::rat) \<le> 2 ^ 7" by simp
  finally have "fbounded (Suc 7) v" using a by (intro approx_upper [where n = 4]) simp_all
  then show ?thesis by (rule fbounded_mono) simp
qed

lemma mean_bounded: "mean_ok r v \<Longrightarrow> fbounded 66 v"
proof -
  assume m: "mean_ok r v"
  then obtain q where v: "v = Fin q" by (cases v) (simp_all add: mean_ok_def)
  have "(2::rat) ^ 64 \<le> 2 ^ 66" by simp
  with m v have "0 \<le> q \<and> q \<le> 2 ^ 66" by (auto simp add: mean_ok_def split: if_splits)
  then show ?thesis by (simp add: v fbounded_def)
qed

lemma ratio_bounded: "ratio_ok n v \<Longrightarrow> fbounded 66 v"
proof -
  assume m: "ratio_ok n v"
  then obtain q where v: "v = Fin q" by (cases v) (simp_all add: ratio_ok_def)
  have "(2::rat) ^ 65 \<le> 2 ^ 66" by simp
  with m v have "0 \<le> q \<and> q \<le> 2 ^ 66" by (auto simp add: ratio_ok_def)
  then show ?thesis by (simp add: v fbounded_def)
qed

lemma stats_bounded:
  assumes "stats_ok s st" and "counts_ok s"
  shows "fbounded 95 (calculate_rs_tateisi_a st)" and "fbounded 87 (calculate_rs_tateisi_b st)"
proof -
  have ok: "0 \<le> ar s" "0 \<le> hr s" "0 \<le> cr s" "0 \<le> kr s"
    using assms(2) by (simp_all add: counts_ok_def)
  have le: "ar s \<le> ar s + hr s + cr s + kr s" "hr s \<le> ar s + hr s + cr s + kr s"
    "cr s \<le> ar s + hr s + cr s + kr s" "kr s \<le> ar s + hr s + cr s + kr s"
    using ok by simp_all
  have p: "fbounded 66 (pa st)" "fbounded 66 (ph st)" "fbounded 66 (pc st)" "fbounded 66 (pk st)"
    using assms(1) ok le by (auto simp add: stats_ok_def intro: percent_bounded)
  have l: "fbounded 66 (la st)" "fbounded 66 (lh st)" "fbounded 66 (lc st)" "fbounded 66 (lk st)"
    using assms(1) by (auto simp add: stats_ok_def intro: mean_bounded)
  have r: "fbounded 66 (ls st)" "fbounded 66 (cp st)"
    using assms(1) by (auto simp add: stats_ok_def intro: ratio_bounded)
  show "fbounded 95 (calculate_rs_tateisi_a st)" and "fbounded 87 (calculate_rs_tateisi_b st)"
    using p l r by (rule scores_finite)+
qed

subsection \<open>The sum of the percentages\<close>

lemma in_range_ratio:
  assumes "0 \<le> n" and "n \<le> R" and "1 \<le> R" and "R \<le> 2 ^ 63"
  shows "in_range (100 * of_int n / of_int R)"
proof (cases "n = 0")
  case True
  then show ?thesis by (simp add: in_range_def)
next
  case False
  with assms(1) have n1: "(1::rat) \<le> of_int n" by simp
  have Rpos: "(1::rat) \<le> of_int R" using assms(3) by simp
  have R63: "(of_int R :: rat) \<le> 2 ^ 63" using assms(4) by (rule of_int_le_pow63)
  have "(1::rat) / 2 ^ 1000 \<le> 100 * 1 / 2 ^ 63" by simp
  also have "\<dots> \<le> 100 * 1 / of_int R" using R63 Rpos by (intro divide_left_mono) simp_all
  also have "\<dots> \<le> 100 * of_int n / of_int R" using n1 Rpos by (intro divide_right_mono) simp_all
  finally have lo: "(1::rat) / 2 ^ 1000 \<le> 100 * of_int n / of_int R" .
  have "100 * (of_int n :: rat) / of_int R \<le> 100" using assms(1,2,3) by (rule in_range_percent)
  also have "\<dots> \<le> (2::rat) ^ 1000" by simp
  finally show ?thesis using lo unfolding in_range_def by simp
qed

lemma percent_add:
  "(100::rat) * of_int m / of_int R + 100 * of_int n / of_int R = 100 * of_int (m + n) / of_int R"
  by (simp add: add_divide_distrib distrib_left)

lemma close_to_hundred:
  assumes "rel_close 7 q 100"
  shows "\<bar>q - 100\<bar> \<le> 1 / 10 ^ 13"
proof -
  define L :: rat where "L = 1 - 7 / 2 ^ 53"
  have L: "0 < L" by (simp add: L_def)
  have "1 - of_nat 7 / 2 ^ 53 \<le> shrink 7" by (rule shrink_lower)
  then have sh: "L \<le> shrink 7" by (simp add: L_def)
  have lo: "100 * shrink 7 \<le> q" and hi: "q * shrink 7 \<le> 100"
    using assms by (simp_all add: rel_close_def)
  have "100 * L \<le> 100 * shrink 7" using sh by simp
  with lo have q1: "100 * L \<le> q" by simp
  then have q0: "0 \<le> q" using L by (simp add: L_def)
  have "q * L \<le> q * shrink 7" using sh q0 by (rule mult_left_mono)
  with hi have "q * L \<le> 100" by simp
  then have q2: "q \<le> 100 / L" using L by (simp add: field_simps)
  define eps :: rat where "eps = 1 / 10 ^ 13"
  have "100 - eps \<le> 100 * L" by (simp add: L_def eps_def)
  moreover have "100 / L \<le> 100 + eps" by (simp add: L_def eps_def)
  ultimately have "\<bar>q - 100\<bar> \<le> eps" using q1 q2 by linarith
  then show ?thesis by (simp only: eps_def)
qed

lemma percent_sum_close:
  assumes "percent_ok r1 R v1" and "percent_ok r2 R v2" and "percent_ok r3 R v3"
    and "percent_ok r4 R v4" and "R = r1 + r2 + r3 + r4"
    and "0 \<le> r1" and "0 \<le> r2" and "0 \<le> r3" and "0 \<le> r4" and "1 \<le> R" and "R \<le> 2 ^ 63"
  shows "\<exists>q. fadd (fadd (fadd v1 v2) v3) v4 = Fin q \<and> \<bar>q - 100\<bar> \<le> 1 / 10 ^ 13"
proof -
  have R0: "R \<noteq> 0" using assms(10) by simp
  have a1: "approx 4 v1 (100 * of_int r1 / of_int R)"
    and a2: "approx 4 v2 (100 * of_int r2 / of_int R)"
    and a3: "approx 4 v3 (100 * of_int r3 / of_int R)"
    and a4: "approx 4 v4 (100 * of_int r4 / of_int R)"
    using assms(1-4) R0 by (simp_all add: percent_ok_def)
  have r12: "in_range (100 * of_int r1 / of_int R + 100 * of_int r2 / of_int R)"
    unfolding percent_add using assms(5-11) by (intro in_range_ratio) simp_all
  have "approx (Suc 4) (fadd v1 v2) (100 * of_int r1 / of_int R + 100 * of_int r2 / of_int R)"
    using a1 a2 r12 by (rule approx_fadd) simp
  then have b1: "approx 5 (fadd v1 v2) (100 * of_int (r1 + r2) / of_int R)"
    by (simp only: percent_add) (simp add: eval_nat_numeral)
  have a3': "approx 5 v3 (100 * of_int r3 / of_int R)" using a3 by (rule approx_mono) simp
  have r123: "in_range (100 * of_int (r1 + r2) / of_int R + 100 * of_int r3 / of_int R)"
    unfolding percent_add using assms(5-11) by (intro in_range_ratio) simp_all
  have "approx (Suc 5) (fadd (fadd v1 v2) v3)
      (100 * of_int (r1 + r2) / of_int R + 100 * of_int r3 / of_int R)"
    using b1 a3' r123 by (rule approx_fadd) simp
  then have b2: "approx 6 (fadd (fadd v1 v2) v3) (100 * of_int (r1 + r2 + r3) / of_int R)"
    by (simp only: percent_add) (simp add: eval_nat_numeral)
  have a4': "approx 6 v4 (100 * of_int r4 / of_int R)" using a4 by (rule approx_mono) simp
  have r1234: "in_range (100 * of_int (r1 + r2 + r3) / of_int R + 100 * of_int r4 / of_int R)"
    unfolding percent_add using assms(5-11) by (intro in_range_ratio) simp_all
  have "approx (Suc 6) (fadd (fadd (fadd v1 v2) v3) v4)
      (100 * of_int (r1 + r2 + r3) / of_int R + 100 * of_int r4 / of_int R)"
    using b2 a4' r1234 by (rule approx_fadd) simp
  then have "approx 7 (fadd (fadd (fadd v1 v2) v3) v4) (100 * of_int (r1 + r2 + r3 + r4) / of_int R)"
    by (simp only: percent_add) (simp add: eval_nat_numeral)
  moreover have "(100::rat) * of_int (r1 + r2 + r3 + r4) / of_int R = 100"
  proof -
    have "(of_int R :: rat) \<noteq> 0" using R0 by simp
    then have "(100::rat) * of_int R / of_int R = 100" by simp
    then show ?thesis by (simp only: assms(5))
  qed
  ultimately have "approx 7 (fadd (fadd (fadd v1 v2) v3) v4) 100" by simp
  then obtain q where "fadd (fadd (fadd v1 v2) v3) v4 = Fin q" and "rel_close 7 q 100"
    by (rule approx_FinE)
  then show ?thesis using close_to_hundred by blast
qed

lemma percent_sum_zero:
  assumes "percent_ok r1 0 v1" and "percent_ok r2 0 v2" and "percent_ok r3 0 v3"
    and "percent_ok r4 0 v4"
  shows "v1 = Fin 0 \<and> v2 = Fin 0 \<and> v3 = Fin 0 \<and> v4 = Fin 0
         \<and> fadd (fadd (fadd v1 v2) v3) v4 = Fin 0"
  using assms by (simp add: percent_ok_def)

subsection \<open>Texts without letters\<close>

lemma truediv_zero_hundred: "truediv (PyInt 0) (PyFloat (Fin 100)) = Inr (Fin 0)"
  by (simp add: int_to_float_def finite_or_overflow_def float_div_def)

lemma truediv_zero_or: "truediv (PyInt 0) (py_or t (Fin 1)) = Inr (Fin 0)"
  by (simp add: py_or_def int_to_float_def finite_or_overflow_def float_div_def)

lemma finalize_no_letters:
  assumes "run_state s = run_state initial" and "tt s = 0"
  shows "finalize Tateisi_class s = Inr Tateisi_class"
proof -
  have z: "a s = 0" "h s = 0" "c s = 0" "k s = 0" "ar s = 0" "hr s = 0" "cr s = 0" "kr s = 0"
    using assms(1) by (simp_all add: run_state_def initial_def)
  have "finalize Tateisi_class s = Inr
     \<lparr>pa = (if Fin 0 \<noteq> Fin 0 then Fin 0 else pa Tateisi_class),
      ph = (if Fin 0 \<noteq> Fin 0 then Fin 0 else ph Tateisi_class),
      pc = (if Fin 0 \<noteq> Fin 0 then Fin 0 else pc Tateisi_class),
      pk = (if Fin 0 \<noteq> Fin 0 then Fin 0 else pk Tateisi_class),
      la = (if ar s \<noteq> 0 then Fin 0 else la Tateisi_class),
      lh = (if hr s \<noteq> 0 then Fin 0 else lh Tateisi_class),
      lc = (if cr s \<noteq> 0 then Fin 0 else lc Tateisi_class),
      lk = (if kr s \<noteq> 0 then Fin 0 else lk Tateisi_class),
      ls = Fin 0, cp = Fin 0\<rparr>"
    by (rule finalize_result)
      (simp_all add: z assms(2) truediv_zero_hundred truediv_zero_or del: truediv.simps)
  then show ?thesis by (simp add: z Tateisi_class_def)
qed

lemma lit_Fin: "\<bar>x\<bar> \<le> 2 ^ 1022 \<Longrightarrow> lit x = Fin (nearest_double x)"
  unfolding lit_def by (rule to_double_finite)

lemma lit_times_zero: "\<bar>x\<bar> \<le> 2 ^ 1022 \<Longrightarrow> fmul (lit x) (Fin 0) = Fin 0"
  by (simp add: lit_Fin)

lemma default_scores:
  "calculate_rs_tateisi_a Tateisi_class = fneg (lit (1091 / 10))"
  "calculate_rs_tateisi_b Tateisi_class = lit (11579 / 100)"
proof -
  have l11579: "to_double (11579 / 100) = Fin (8147996888331715 / 70368744177664)"
    by (rule to_double_eqI [where e = "6" and m = "8147996888331715"]) (simp_all add: pow2_def)
  have l1091: "to_double (1091 / 10) = Fin (3838614994891571 / 35184372088832)"
    by (rule to_double_eqI [where e = "6" and m = "7677229989783142"]) (simp_all add: pow2_def)
  have e3: "to_double (8147996888331715 / 70368744177664) = Fin (8147996888331715 / 70368744177664)"
    by (rule to_double_eqI [where e = "6" and m = "8147996888331715"]) (simp_all add: pow2_def)
  have e4: "to_double (3838614994891571 / 35184372088832) = Fin (3838614994891571 / 35184372088832)"
    by (rule to_double_eqI [where e = "6" and m = "7677229989783142"]) (simp_all add: pow2_def)
  have z: "fmul (lit x) (Fin 0) = Fin 0" "fmul (fneg (lit x)) (Fin 0) = Fin 0"
    if "\<bar>x\<bar> \<le> 2 ^ 7" for x
  proof -
    have "(2::rat) ^ 7 \<le> 2 ^ 1022" by simp
    with that have "\<bar>x\<bar> \<le> 2 ^ 1022" by (rule order_trans)
    then show "fmul (lit x) (Fin 0) = Fin 0" "fmul (fneg (lit x)) (Fin 0) = Fin 0"
      by (simp_all add: lit_Fin)
  qed
  have a: "scoreA Tateisi_class = fsub (Fin 0) (lit (1091 / 10))"
    by (simp add: scoreA_def Tateisi_class_def Let_def z)
  have "fsub (Fin 0) (lit (1091 / 10)) = fneg (lit (1091 / 10))"
    unfolding lit_def l1091 by (simp add: to_double_minus e4)
  with a show "calculate_rs_tateisi_a Tateisi_class = fneg (lit (1091 / 10))"
    by (simp only: scoreA_eq)
  have b: "scoreB Tateisi_class = fadd (Fin 0) (lit (11579 / 100))"
    by (simp add: scoreB_def Tateisi_class_def Let_def z)
  have "fadd (Fin 0) (lit (11579 / 100)) = lit (11579 / 100)"
    unfolding lit_def l11579 by (simp add: e3)
  with b show "calculate_rs_tateisi_b Tateisi_class = lit (11579 / 100)"
    by (simp only: scoreB_eq)
qed

section \<open>The claims about the scan\<close>

text \<open>
  C2, as stated, fails for ASCII punctuation. The underscore U+005F is ASCII punctuation,
  and line 50 of the source takes it for an Alphabet letter. Between two hiragana letters
  it splits their run: hiragana a, \<^verbatim>\<open>_\<close>, hiragana a has two Hiragana runs and one
  Alphabet run, where the two letters alone have one Hiragana run. Between two Alphabet
  letters it counts toward the length of their run: \<^verbatim>\<open>"a_a"\<close> is one Alphabet run of
  three letters, where \<^verbatim>\<open>"aa"\<close> is one of two.
\<close>

theorem underscore_counterexample:
  "run_state (scan initial [0x3042, 0x5F, 0x3042]) = ((1, 2, 0, 0), (1, 2, 0, 0), ''h'')
   \<and> run_state (scan initial [0x3042, 0x3042]) = ((0, 2, 0, 0), (0, 1, 0, 0), ''h'')
   \<and> hr (scan initial [0x3042, 0x5F, 0x3042]) \<noteq> hr (scan initial [0x3042, 0x3042])
   \<and> run_state (scan initial [0x61, 0x5F, 0x61]) = ((3, 0, 0, 0), (1, 0, 0, 0), ''a'')
   \<and> run_state (scan initial [0x61, 0x61]) = ((2, 0, 0, 0), (1, 0, 0, 0), ''a'')
   \<and> a (scan initial [0x61, 0x5F, 0x61]) \<noteq> a (scan initial [0x61, 0x61])"
  by (simp add: step_def initial_def run_state_def)

text \<open>
  C2, amended. A character that is in none of the four letter classes leaves the
  run-tracking state as it is: deleting it from a text, wherever it stands, changes neither
  a letter counter, nor a run counter, nor the class of the current run. The digits, the
  ASCII punctuation other than the six characters U+005B--U+0060 (that is, U+0021--U+002F,
  U+003A--U+0040 and U+007B--U+007E, the ranges of the source's \<^verbatim>\<open>continue\<close>
  branches), the kuten and the toten are such characters. For \<^verbatim>\<open>"aa1aa"\<close> the scan
  records one Alphabet run with four letters, and no other run.
\<close>

theorem non_letters_invisible_to_runs:
  "run_state (scan initial [0x61, 0x61, 0x31, 0x61, 0x61]) = ((4, 0, 0, 0), (1, 0, 0, 0), ''a'')
   \<and> (\<not> is_letter_class (char_class x) \<longrightarrow>
        run_state (step s x) = run_state s
        \<and> run_state (scan s (xs @ x # ys)) = run_state (scan s (xs @ ys)))
   \<and> ((0x21 \<le> x \<and> x \<le> 0x40) \<or> (0x7B \<le> x \<and> x \<le> 0x7E) \<or> x = 0x3002 \<or> x = 0x3001
        \<longrightarrow> \<not> is_letter_class (char_class x))"
proof (intro conjI impI)
  show "run_state (scan initial [0x61, 0x61, 0x31, 0x61, 0x61]) = ((4, 0, 0, 0), (1, 0, 0, 0), ''a'')"
    by (simp add: step_def initial_def run_state_def)
next
  assume "\<not> is_letter_class (char_class x)"
  then show "run_state (step s x) = run_state s" by (rule non_letter_step)
next
  assume "\<not> is_letter_class (char_class x)"
  then show "run_state (scan s (xs @ x # ys)) = run_state (scan s (xs @ ys))"
    by (rule non_letter_invisible)
next
  assume "(0x21 \<le> x \<and> x \<le> 0x40) \<or> (0x7B \<le> x \<and> x \<le> 0x7E) \<or> x = 0x3002 \<or> x = 0x3001"
  then show "\<not> is_letter_class (char_class x)" by (rule ignored_is_not_letter)
qed

theorem non_letters_invisible_to_runs_witness:
  "\<not> is_letter_class (char_class 0x31)
   \<and> run_state (scan initial ([0x61, 0x61] @ 0x31 # [0x61, 0x61]))
       = run_state (scan initial ([0x61, 0x61] @ [0x61, 0x61]))
   \<and> run_state (scan initial ([0x3042] @ 0x3001 # [0x3042])) = ((0, 2, 0, 0), (0, 1, 0, 0), ''h'')"
proof -
  have d: "(0x21 \<le> (0x31::nat) \<and> (0x31::nat) \<le> 0x40) \<or> (0x7B \<le> (0x31::nat) \<and> (0x31::nat) \<le> 0x7E)
           \<or> (0x31::nat) = 0x3002 \<or> (0x31::nat) = 0x3001" by simp
  have t: "(0x21 \<le> (0x3001::nat) \<and> (0x3001::nat) \<le> 0x40) \<or> (0x7B \<le> (0x3001::nat) \<and> (0x3001::nat) \<le> 0x7E)
           \<or> (0x3001::nat) = 0x3002 \<or> (0x3001::nat) = (0x3001::nat)" by simp
  have n1: "\<not> is_letter_class (char_class 0x31)"
    using non_letters_invisible_to_runs [of "0x31" initial "[]" "[]"] d by blast
  have n2: "\<not> is_letter_class (char_class 0x3001)"
    using non_letters_invisible_to_runs [of "0x3001" initial "[]" "[]"] t by blast
  have e1: "run_state (scan initial ([0x61, 0x61] @ 0x31 # [0x61, 0x61]))
       = run_state (scan initial ([0x61, 0x61] @ [0x61, 0x61]))"
    using non_letters_invisible_to_runs [of "0x31" initial "[0x61, 0x61]" "[0x61, 0x61]"] n1
    by blast
  have "run_state (scan initial ([0x3042] @ 0x3001 # [0x3042]))
       = run_state (scan initial ([0x3042] @ [0x3042]))"
    using non_letters_invisible_to_runs [of "0x3001" initial "[0x3042]" "[0x3042]"] n2 by blast
  also have "\<dots> = ((0, 2, 0, 0), (0, 1, 0, 0), ''h'')"
    by (simp add: step_def initial_def run_state_def)
  finally show ?thesis using n1 e1 by blast
qed

text \<open>
  C3. The loop body is the specification's classification, the first matching range in
  the order Alphabet, Hiragana, Katakana, Kanji, kuten, toten and else Other, followed by
  the action of that class. A code point from U+005B to U+0060 is in the Alphabet range
  U+0041--U+007A: it counts as an Alphabet letter, and it begins an Alphabet run unless
  one is being extended.
\<close>

theorem classification_priority_order:
  "step s y = on_class (char_class y) s
   \<and> char_class y =
       (if (0x0041 \<le> y \<and> y \<le> 0x007A) \<or> (0xFF21 \<le> y \<and> y \<le> 0xFF5A) then Alphabet
        else if 0x3041 \<le> y \<and> y \<le> 0x3096 then Hiragana
        else if 0x30A1 \<le> y \<and> y \<le> 0x30FA then Katakana
        else if 0x4E00 \<le> y \<and> y \<le> 0x9FBF then Kanji
        else if y = 0x3002 then KutenPunctuation
        else if y = 0x3001 then TotenPunctuation
        else Other)
   \<and> (0x5B \<le> x \<and> x \<le> 0x60 \<longrightarrow>
        char_class x = Alphabet
        \<and> step s x = s\<lparr>current_run := ''a'',
                          ar := (if current_run s = ''a'' then ar s else ar s + 1),
                          a := a s + 1\<rparr>)"
  using step_on_class [of s y] char_class_cases [of y]
    ascii_gap_is_alphabet [of x] alphabet_step [of x s]
  by blast

theorem classification_priority_order_witness:
  "char_class 0x5F = Alphabet
   \<and> step initial 0x5F = initial\<lparr>current_run := ''a'', ar := 1, a := 1\<rparr>
   \<and> a (scan initial [0x61, 0x5F, 0x62]) = 3 \<and> ar (scan initial [0x61, 0x5F, 0x62]) = 1"
proof -
  have "(0x5B::nat) \<le> 0x5F \<and> (0x5F::nat) \<le> 0x60" by simp
  with classification_priority_order [of initial 0 "0x5F"]
  have "char_class 0x5F = Alphabet"
    and st: "\<And>s. step s 0x5F = s\<lparr>current_run := ''a'',
                          ar := (if current_run s = ''a'' then ar s else ar s + 1),
                          a := a s + 1\<rparr>"
    using classification_priority_order [of _ 0 "0x5F"] by blast+
  moreover have "step initial 0x5F = initial\<lparr>current_run := ''a'', ar := 1, a := 1\<rparr>"
    by (simp add: st initial_def)
  moreover have "a (scan initial [0x61, 0x5F, 0x62]) = 3 \<and> ar (scan initial [0x61, 0x5F, 0x62]) = 1"
    by (simp add: st) (simp add: step_def initial_def)
  ultimately show ?thesis by simp
qed

text \<open>
  C10. A code point from U+FF3B to U+FF40, between the fullwidth capital Z and the
  fullwidth small a, is in the fullwidth Alphabet range U+FF21--U+FF5A: it counts as an
  Alphabet letter, and it begins an Alphabet run unless one is being extended.
\<close>

theorem fullwidth_gap_counts_as_alphabet:
  "0xFF3B \<le> x \<and> x \<le> 0xFF40 \<longrightarrow>
     char_class x = Alphabet
     \<and> step s x = s\<lparr>current_run := ''a'',
                       ar := (if current_run s = ''a'' then ar s else ar s + 1),
                       a := a s + 1\<rparr>"
  using fullwidth_gap_is_alphabet [of x] alphabet_step [of x s] by blast

theorem fullwidth_gap_counts_as_alphabet_witness:
  "char_class 0xFF3F = Alphabet
   \<and> step initial 0xFF3F = initial\<lparr>current_run := ''a'', ar := 1, a := 1\<rparr>
   \<and> run_state (scan initial [0x3042, 0xFF3F, 0x3042]) = ((1, 2, 0, 0), (1, 2, 0, 0), ''h'')"
proof -
  have "(0xFF3B::nat) \<le> 0xFF3F \<and> (0xFF3F::nat) \<le> 0xFF40" by simp
  then have "char_class 0xFF3F = Alphabet"
    and st: "\<And>s. step s 0xFF3F = s\<lparr>current_run := ''a'',
                          ar := (if current_run s = ''a'' then ar s else ar s + 1),
                          a := a s + 1\<rparr>"
    using fullwidth_gap_counts_as_alphabet [of "0xFF3F"] by blast+
  moreover have "step initial 0xFF3F = initial\<lparr>current_run := ''a'', ar := 1, a := 1\<rparr>"
    by (simp add: st initial_def)
  moreover have "run_state (scan initial [0x3042, 0xFF3F, 0x3042]) = ((1, 2, 0, 0), (1, 2, 0, 0), ''h'')"
    by (simp add: st) (simp add: step_def initial_def run_state_def)
  ultimately show ?thesis by simp
qed

section \<open>The claims about the scores and the constructor\<close>

text \<open>
  C1. For every value of the statistics, the method \<^verbatim>\<open>calculate_rs_tateisi_a\<close> computes
  \<open>0.06\<cdot>pa + 0.25\<cdot>ph - 0.19\<cdot>pc - 0.61\<cdot>pk - 1.34\<cdot>ls - 1.35\<cdot>la + 7.52\<cdot>lh - 22.1\<cdot>lc - 5.3\<cdot>lk
  - 3.87\<cdot>cp - 109.1\<close> and \<^verbatim>\<open>calculate_rs_tateisi_b\<close> computes \<open>-0.12\<cdot>ls - 1.37\<cdot>la + 7.4\<cdot>lh
  - 23.18\<cdot>lc - 5.4\<cdot>lk - 4.67\<cdot>cp + 115.79\<close>, with these coefficients, in this order of the
  terms, in double precision. (The source writes the second score with negated
  coefficients that it adds; adding the product of a negated coefficient and subtracting
  the product of the coefficient round to the same double.)
\<close>

theorem scores_are_the_specified_formulas:
  "calculate_rs_tateisi_a s = scoreA s \<and> calculate_rs_tateisi_b s = scoreB s"
  using scoreA_eq [of s] scoreB_eq [of s] by (rule conjI)

text \<open>
  C9. Two instantiations of the class on the same text, one after the other, give the
  same result, field by field: the first leaves the class attributes, the only state
  the two share, as they were.
\<close>

theorem classification_is_deterministic:
  "(instantiate cls txt = (cls1, r1) \<and> instantiate cls1 txt = (cls2, r2)
      \<longrightarrow> r2 = r1 \<and> cls2 = cls)
   \<and> (instantiate cls txt = (cls1, Inr s1) \<and> instantiate cls1 txt = (cls2, Inr s2)
      \<longrightarrow> pa s2 = pa s1 \<and> ph s2 = ph s1 \<and> pc s2 = pc s1 \<and> pk s2 = pk s1
          \<and> la s2 = la s1 \<and> lh s2 = lh s1 \<and> lc s2 = lc s1 \<and> lk s2 = lk s1
          \<and> ls s2 = ls s1 \<and> cp s2 = cp s1)"
  by (auto simp add: instantiate_def)

theorem classification_is_deterministic_witness:
  "instantiate Tateisi_class [0x3002] = (Tateisi_class, Inr Tateisi_class)
   \<and> instantiate (fst (instantiate Tateisi_class [0x3002])) [0x3002]
       = (Tateisi_class, Inr Tateisi_class)
   \<and> cp (projr (snd (instantiate (fst (instantiate Tateisi_class [0x3002])) [0x3002])))
       = cp (projr (snd (instantiate Tateisi_class [0x3002])))"
proof -
  have "run_state (scan initial [0x3002]) = run_state initial" "tt (scan initial [0x3002]) = 0"
    by (simp_all add: step_def initial_def run_state_def)
  then have "finalize Tateisi_class (scan initial [0x3002]) = Inr Tateisi_class"
    by (rule finalize_no_letters)
  then have 1: "instantiate Tateisi_class [0x3002] = (Tateisi_class, Inr Tateisi_class)"
    by (simp add: instantiate_def)
  obtain cls2 r2 where 2: "instantiate Tateisi_class [0x3002] = (cls2, r2)"
    by (cases "instantiate Tateisi_class [0x3002]")
  have 3: "r2 = Inr Tateisi_class \<and> cls2 = Tateisi_class"
    using classification_is_deterministic
      [of Tateisi_class "[0x3002]" Tateisi_class "Inr Tateisi_class" cls2 r2] 1 2
    by blast
  obtain s2 where 4: "instantiate Tateisi_class [0x3002] = (cls2, Inr s2)"
    using 2 3 by blast
  have 5: "cp s2 = cp Tateisi_class"
    using classification_is_deterministic
      [of Tateisi_class "[0x3002]" Tateisi_class _ cls2 _ Tateisi_class s2] 1 4
    by blast
  from 1 3 4 5 show ?thesis by simp
qed

section \<open>The claims about the statistics\<close>

text \<open>
  A Python string has fewer than \<open>2\<^sup>6\<^sup>3\<close> characters, the bound of its length field; the
  lists of the model have no such bound, so the theorems about every text state it.
\<close>

text \<open>
  C4, as stated, fails. For the text \<^verbatim>\<open>"a\<close>, hiragana a, \<^verbatim>\<open>a\<close>, a kanji, \<^verbatim>\<open>a\<close>, katakana a
  (six runs: three Alphabet and one of each other class) the four percentages are
  \<open>50.0\<close> and three times \<open>16.666666666666668\<close>, and their floating-point sum is
  \<open>100.00000000000001\<close>, not \<open>100.0\<close>; their exact sum is not 100 either.
\<close>

theorem percent_sum_counterexample:
  "run_count [0x61, 0x3042, 0x61, 0x6F22, 0x61, 0x30A2] = 6
   \<and> Tateisi_init [0x61, 0x3042, 0x61, 0x6F22, 0x61, 0x30A2] = Inr
        \<lparr>pa = Fin 50, ph = Fin (4691249611844267 / 281474976710656),
         pc = Fin (4691249611844267 / 281474976710656),
         pk = Fin (4691249611844267 / 281474976710656),
         la = Fin 1, lh = Fin 1, lc = Fin 1, lk = Fin 1, ls = Fin 6, cp = Fin 0\<rparr>
   \<and> percent_sum
        \<lparr>pa = Fin 50, ph = Fin (4691249611844267 / 281474976710656),
         pc = Fin (4691249611844267 / 281474976710656),
         pk = Fin (4691249611844267 / 281474976710656),
         la = Fin 1, lh = Fin 1, lc = Fin 1, lk = Fin 1, ls = Fin 6, cp = Fin 0\<rparr>
       = Fin (7036874417766401 / 70368744177664)
   \<and> Fin (7036874417766401 / 70368744177664) \<noteq> Fin 100
   \<and> (50 + 4691249611844267 / 281474976710656 + 4691249611844267 / 281474976710656
        + 4691249611844267 / 281474976710656 :: rat) \<noteq> 100"
proof -
  have d6: "to_double (6) = Fin (6)"
    by (rule to_double_eqI [where e = "2" and m = "6755399441055744"]) (simp_all add: pow2_def)
  have dtr: "to_double (3 / 50) = Fin (1080863910568919 / 18014398509481984)"
    by (rule to_double_eqI [where e = "- 5" and m = "8646911284551352"]) (simp_all add: pow2_def)
  have d3: "to_double (3) = Fin (3)"
    by (rule to_double_eqI [where e = "1" and m = "6755399441055744"]) (simp_all add: pow2_def)
  have d1: "to_double (1) = Fin (1)"
    by (rule to_double_eqI [where e = "0" and m = "4503599627370496"]) (simp_all add: pow2_def)
  have dpa: "to_double (54043195528445952 / 1080863910568919) = Fin (50)"
    by (rule to_double_eqI [where e = "5" and m = "7036874417766400"]) (simp_all add: pow2_def)
  have dph: "to_double (18014398509481984 / 1080863910568919) = Fin (4691249611844267 / 281474976710656)"
    by (rule to_double_eqI [where e = "4" and m = "4691249611844267"]) (simp_all add: pow2_def)
  have ds1: "to_double (18764998447377067 / 281474976710656) = Fin (4691249611844267 / 70368744177664)"
    by (rule to_double_eqI [where e = "6" and m = "4691249611844267"]) (simp_all add: pow2_def)
  have ds2: "to_double (23456248059221335 / 281474976710656) = Fin (2932031007402667 / 35184372088832)"
    by (rule to_double_eqI [where e = "6" and m = "5864062014805334"]) (simp_all add: pow2_def)
  have ds3: "to_double (28147497671065603 / 281474976710656) = Fin (7036874417766401 / 70368744177664)"
    by (rule to_double_eqI [where e = "6" and m = "7036874417766401"]) (simp_all add: pow2_def)
  have s: "scan initial [0x61, 0x3042, 0x61, 0x6F22, 0x61, 0x30A2] =
      \<lparr>a = 3, h = 1, c = 1, k = 1, ar = 3, hr = 1, cr = 1, kr = 1, tt = 0, tk = 0,
       current_run = ''k''\<rparr>"
    by (simp add: step_def initial_def)
  have t_tr: "truediv (PyInt 6) (PyFloat (Fin 100)) = Inr (Fin (1080863910568919 / 18014398509481984))"
    by (simp add: int_to_float_def finite_or_overflow_def float_div_def d6 dtr)
  have t_pa: "truediv (PyInt 3) (PyFloat (Fin (1080863910568919 / 18014398509481984))) = Inr (Fin 50)"
    by (simp add: int_to_float_def finite_or_overflow_def float_div_def d3 dpa)
  have t_ph: "truediv (PyInt 1) (PyFloat (Fin (1080863910568919 / 18014398509481984)))
      = Inr (Fin (4691249611844267 / 281474976710656))"
    by (simp add: int_to_float_def finite_or_overflow_def float_div_def d1 dph)
  have t_la: "truediv (PyInt 3) (PyInt 3) = Inr (Fin 1)"
    by (simp add: finite_or_overflow_def d1)
  have t_l1: "truediv (PyInt 1) (PyInt 1) = Inr (Fin 1)"
    by (simp add: finite_or_overflow_def d1)
  have t_ls: "truediv (PyInt 6) (py_or 0 (Fin 1)) = Inr (Fin 6)"
    by (simp add: py_or_def int_to_float_def finite_or_overflow_def float_div_def d6)
  have init: "Tateisi_init [0x61, 0x3042, 0x61, 0x6F22, 0x61, 0x30A2] = Inr
        \<lparr>pa = Fin 50, ph = Fin (4691249611844267 / 281474976710656),
         pc = Fin (4691249611844267 / 281474976710656),
         pk = Fin (4691249611844267 / 281474976710656),
         la = Fin 1, lh = Fin 1, lc = Fin 1, lk = Fin 1, ls = Fin 6, cp = Fin 0\<rparr>"
    unfolding Tateisi_init_def s finalize_def
    by (simp add: t_tr t_pa t_ph t_la t_l1 t_ls truediv_zero_or and_then_def Tateisi_class_def
        del: truediv.simps)
  have sum: "percent_sum
        \<lparr>pa = Fin 50, ph = Fin (4691249611844267 / 281474976710656),
         pc = Fin (4691249611844267 / 281474976710656),
         pk = Fin (4691249611844267 / 281474976710656),
         la = Fin 1, lh = Fin 1, lc = Fin 1, lk = Fin 1, ls = Fin 6, cp = Fin 0\<rparr>
       = Fin (7036874417766401 / 70368744177664)"
    by (simp add: percent_sum_def ds1 ds2 ds3)
  have "run_count [0x61, 0x3042, 0x61, 0x6F22, 0x61, 0x30A2] = 6"
    unfolding run_count_def s by simp
  with init sum show ?thesis by simp
qed

text \<open>
  C4, amended. For every text, when the scan records no run the four percentages and
  their sum are zero; when it records a run, their floating-point sum is a finite number
  within \<open>10\<^sup>-\<^sup>1\<^sup>3\<close> of 100 (each percentage carries the rounding of four operations, the
  sum that of three more).
\<close>

theorem percent_sum_about_100:
  "length txt < 2 ^ 63 \<longrightarrow>
     (\<exists>st. Tateisi_init txt = Inr st \<and>
        (if run_count txt = 0
         then pa st = Fin 0 \<and> ph st = Fin 0 \<and> pc st = Fin 0 \<and> pk st = Fin 0
              \<and> percent_sum st = Fin 0
         else \<exists>q. percent_sum st = Fin q \<and> \<bar>q - 100\<bar> \<le> 1 / 10 ^ 13))"
proof
  assume len: "length txt < 2 ^ 63"
  define s where "s = scan initial txt"
  define R where "R = ar s + hr s + cr s + kr s"
  from Tateisi_init_ok [OF len] obtain st
    where st: "Tateisi_init txt = Inr st" and ok: "stats_ok s st" by (auto simp add: s_def)
  have c: "counts_ok s" and t: "total s \<le> 2 ^ 63" using scan_ok [OF len] by (simp_all add: s_def)
  have nn: "0 \<le> ar s" "0 \<le> hr s" "0 \<le> cr s" "0 \<le> kr s"
    and le: "ar s \<le> a s" "hr s \<le> h s" "cr s \<le> c s" "kr s \<le> k s" and p: "0 \<le> tt s" "0 \<le> tk s"
    using c by (simp_all add: counts_ok_def)
  have R63: "R \<le> 2 ^ 63" using t nn le p by (simp add: R_def total_def)
  have pc: "percent_ok (ar s) R (pa st)" "percent_ok (hr s) R (ph st)"
    "percent_ok (cr s) R (pc st)" "percent_ok (kr s) R (pk st)"
    using ok by (simp_all add: stats_ok_def R_def)
  have rc: "run_count txt = R" by (simp add: run_count_def s_def R_def Let_def)
  show "\<exists>st. Tateisi_init txt = Inr st \<and>
        (if run_count txt = 0
         then pa st = Fin 0 \<and> ph st = Fin 0 \<and> pc st = Fin 0 \<and> pk st = Fin 0
              \<and> percent_sum st = Fin 0
         else \<exists>q. percent_sum st = Fin q \<and> \<bar>q - 100\<bar> \<le> 1 / 10 ^ 13)"
  proof (cases "R = 0")
    case True
    with pc have "pa st = Fin 0 \<and> ph st = Fin 0 \<and> pc st = Fin 0 \<and> pk st = Fin 0
         \<and> fadd (fadd (fadd (pa st) (ph st)) (pc st)) (pk st) = Fin 0"
      by (intro percent_sum_zero) simp_all
    with st True show ?thesis by (auto simp add: rc percent_sum_def)
  next
    case False
    with nn have R1: "1 \<le> R" by (simp add: R_def)
    have "\<exists>q. fadd (fadd (fadd (pa st) (ph st)) (pc st)) (pk st) = Fin q \<and> \<bar>q - 100\<bar> \<le> 1 / 10 ^ 13"
      using pc R_def nn R1 R63 by (rule percent_sum_close)
    with st False show ?thesis by (auto simp add: rc percent_sum_def)
  qed
qed

theorem percent_sum_about_100_witness:
  "(\<exists>st q. Tateisi_init [0x61, 0x3042, 0x61, 0x6F22, 0x61, 0x30A2] = Inr st
       \<and> percent_sum st = Fin q \<and> \<bar>q - 100\<bar> \<le> 1 / 10 ^ 13)
   \<and> (\<exists>st. Tateisi_init [0x3002, 0x31] = Inr st \<and> percent_sum st = Fin 0)"
proof -
  have "run_count [0x61, 0x3042, 0x61, 0x6F22, 0x61, 0x30A2] = 6"
    by (simp add: run_count_def step_def initial_def)
  moreover have "length [0x61, 0x3042, 0x61, 0x6F22, 0x61, 0x30A2 :: nat] < 2 ^ 63" by simp
  ultimately have 1: "\<exists>st q. Tateisi_init [0x61, 0x3042, 0x61, 0x6F22, 0x61, 0x30A2] = Inr st
       \<and> percent_sum st = Fin q \<and> \<bar>q - 100\<bar> \<le> 1 / 10 ^ 13"
    using percent_sum_about_100 [of "[0x61, 0x3042, 0x61, 0x6F22, 0x61, 0x30A2]"] by auto
  have "run_count [0x3002, 0x31] = 0"
    by (simp add: run_count_def step_def initial_def)
  moreover have "length [0x3002, 0x31 :: nat] < 2 ^ 63" by simp
  ultimately have 2: "\<exists>st. Tateisi_init [0x3002, 0x31] = Inr st \<and> percent_sum st = Fin 0"
    using percent_sum_about_100 [of "[0x3002, 0x31]"] by auto
  from 1 2 show ?thesis by blast
qed

text \<open>
  C5, as stated, fails. The text that is a lone toten, U+3001, has no letter and no
  kuten, yet its toten to kuten ratio \<^verbatim>\<open>cp\<close> is 1, and its second score is \<open>111.12\<close>, not
  \<open>115.79\<close>.
\<close>

theorem lone_toten_counterexample:
  "\<not> is_letter_class (char_class 0x3001) \<and> char_class 0x3001 \<noteq> KutenPunctuation
   \<and> Tateisi_init [0x3001] = Inr (Tateisi_class\<lparr>cp := Fin 1\<rparr>)
   \<and> cp (Tateisi_class\<lparr>cp := Fin 1\<rparr>) \<noteq> Fin 0
   \<and> calculate_rs_tateisi_b (Tateisi_class\<lparr>cp := Fin 1\<rparr>) = Fin (977421856627753 / 8796093022208)
   \<and> lit (11579 / 100) = Fin (8147996888331715 / 70368744177664)
   \<and> calculate_rs_tateisi_b (Tateisi_class\<lparr>cp := Fin 1\<rparr>) \<noteq> lit (11579 / 100)"
proof -
  have d1: "to_double (1) = Fin (1)"
    by (rule to_double_eqI [where e = "0" and m = "4503599627370496"]) (simp_all add: pow2_def)
  have l467: "to_double (467 / 100) = Fin (2628976282477527 / 562949953421312)"
    by (rule to_double_eqI [where e = "2" and m = "5257952564955054"]) (simp_all add: pow2_def)
  have l11579: "to_double (11579 / 100) = Fin (8147996888331715 / 70368744177664)"
    by (rule to_double_eqI [where e = "6" and m = "8147996888331715"]) (simp_all add: pow2_def)
  have e1: "to_double (2628976282477527 / 562949953421312) = Fin (2628976282477527 / 562949953421312)"
    by (rule to_double_eqI [where e = "2" and m = "5257952564955054"]) (simp_all add: pow2_def)
  have e2: "to_double (62554998824176193 / 562949953421312) = Fin (977421856627753 / 8796093022208)"
    by (rule to_double_eqI [where e = "6" and m = "7819374853022024"]) (simp_all add: pow2_def)
  have cls: "\<not> is_letter_class (char_class 0x3001)" "char_class 0x3001 \<noteq> KutenPunctuation"
    by (simp_all add: char_class_cases is_letter_class_def)
  have s: "scan initial [0x3001] = initial\<lparr>tt := 1\<rparr>"
    by (simp add: step_def initial_def)
  have t_cp: "truediv (PyInt 1) (py_or 0 (Fin 1)) = Inr (Fin 1)"
    by (simp add: py_or_def int_to_float_def finite_or_overflow_def float_div_def d1)
  have init: "Tateisi_init [0x3001] = Inr (Tateisi_class\<lparr>cp := Fin 1\<rparr>)"
    unfolding Tateisi_init_def s finalize_def
    by (simp add: initial_def truediv_zero_hundred truediv_zero_or t_cp and_then_def
        Tateisi_class_def del: truediv.simps)
  have z: "fmul (lit x) (Fin 0) = Fin 0" if "\<bar>x\<bar> \<le> 2 ^ 7" for x
  proof -
    have "(2::rat) ^ 7 \<le> 2 ^ 1022" by simp
    with that have "\<bar>x\<bar> \<le> 2 ^ 1022" by (rule order_trans)
    then show ?thesis by (simp add: lit_Fin)
  qed
  have "scoreB (Tateisi_class\<lparr>cp := Fin 1\<rparr>) =
      fadd (fsub (Fin 0) (fmul (lit (467 / 100)) (Fin 1))) (lit (11579 / 100))"
    by (simp add: scoreB_def Tateisi_class_def Let_def z)
  also have "\<dots> = Fin (977421856627753 / 8796093022208)"
    unfolding lit_def l467 l11579 by (simp add: e1 e2 to_double_minus)
  finally have b: "calculate_rs_tateisi_b (Tateisi_class\<lparr>cp := Fin 1\<rparr>)
      = Fin (977421856627753 / 8796093022208)"
    by (simp only: scoreB_eq)
  have l: "lit (11579 / 100) = Fin (8147996888331715 / 70368744177664)"
    unfolding lit_def by (rule l11579)
  have "calculate_rs_tateisi_b (Tateisi_class\<lparr>cp := Fin 1\<rparr>) \<noteq> lit (11579 / 100)"
    unfolding b l by simp
  with cls init b l show ?thesis by simp
qed

text \<open>
  C5, amended. For every text with no character of the four letter classes and no toten
  (kuten marks and any other characters may occur: the empty text, a lone kuten, blanks,
  ASCII digits and punctuation), every statistic is zero, the second score is the double
  \<open>115.79\<close> and the first score is the double \<open>-109.1\<close>.
\<close>

theorem no_letter_no_toten_scores:
  "(\<forall>x\<in>set txt. \<not> is_letter_class (char_class x) \<and> char_class x \<noteq> TotenPunctuation) \<longrightarrow>
     Tateisi_init txt = Inr
       \<lparr>pa = Fin 0, ph = Fin 0, pc = Fin 0, pk = Fin 0,
        la = Fin 0, lh = Fin 0, lc = Fin 0, lk = Fin 0, ls = Fin 0, cp = Fin 0\<rparr>
     \<and> calculate_rs_tateisi_b
       \<lparr>pa = Fin 0, ph = Fin 0, pc = Fin 0, pk = Fin 0,
        la = Fin 0, lh = Fin 0, lc = Fin 0, lk = Fin 0, ls = Fin 0, cp = Fin 0\<rparr>
       = lit (11579 / 100)
     \<and> calculate_rs_tateisi_a
       \<lparr>pa = Fin 0, ph = Fin 0, pc = Fin 0, pk = Fin 0,
        la = Fin 0, lh = Fin 0, lc = Fin 0, lk = Fin 0, ls = Fin 0, cp = Fin 0\<rparr>
       = fneg (lit (1091 / 10))"
proof
  assume h: "\<forall>x\<in>set txt. \<not> is_letter_class (char_class x) \<and> char_class x \<noteq> TotenPunctuation"
  then have "run_state (scan initial txt) = run_state initial"
    by (intro scan_without_letters) simp
  moreover have "tt (scan initial txt) = tt initial" using h by (intro scan_without_toten) simp
  then have "tt (scan initial txt) = 0" by (simp add: initial_def)
  ultimately have "Tateisi_init txt = Inr Tateisi_class"
    unfolding Tateisi_init_def by (rule finalize_no_letters)
  then show "Tateisi_init txt = Inr
       \<lparr>pa = Fin 0, ph = Fin 0, pc = Fin 0, pk = Fin 0,
        la = Fin 0, lh = Fin 0, lc = Fin 0, lk = Fin 0, ls = Fin 0, cp = Fin 0\<rparr>
     \<and> calculate_rs_tateisi_b
       \<lparr>pa = Fin 0, ph = Fin 0, pc = Fin 0, pk = Fin 0,
        la = Fin 0, lh = Fin 0, lc = Fin 0, lk = Fin 0, ls = Fin 0, cp = Fin 0\<rparr>
       = lit (11579 / 100)
     \<and> calculate_rs_tateisi_a
       \<lparr>pa = Fin 0, ph = Fin 0, pc = Fin 0, pk = Fin 0,
        la = Fin 0, lh = Fin 0, lc = Fin 0, lk = Fin 0, ls = Fin 0, cp = Fin 0\<rparr>
       = fneg (lit (1091 / 10))"
    using default_scores by (simp add: Tateisi_class_def)
qed

theorem no_letter_no_toten_scores_witness:
  "(\<exists>st. Tateisi_init [0x3002] = Inr st \<and> calculate_rs_tateisi_b st = lit (11579 / 100)
         \<and> calculate_rs_tateisi_a st = fneg (lit (1091 / 10)))
   \<and> (\<exists>st. Tateisi_init [0x20, 0x20, 0x20] = Inr st
         \<and> calculate_rs_tateisi_b st = lit (11579 / 100))
   \<and> (\<exists>st. Tateisi_init
          [0x21, 0x22, 0x23, 0x24, 0x25, 0x26, 0x27, 0x28, 0x29, 0x2A, 0x2B, 0x2C,
           0x2D, 0x2E, 0x2F, 0x30, 0x31, 0x32, 0x33, 0x34, 0x35, 0x36, 0x37, 0x38,
           0x39, 0x3A, 0x3B, 0x3C, 0x3D, 0x3E, 0x3F, 0x40, 0x7B, 0x7C, 0x7D] = Inr st
         \<and> calculate_rs_tateisi_b st = lit (11579 / 100))
   \<and> (\<exists>st. Tateisi_init [] = Inr st \<and> calculate_rs_tateisi_b st = lit (11579 / 100))"
proof -
  have 1: "\<forall>x\<in>set [0x3002 :: nat].
      \<not> is_letter_class (char_class x) \<and> char_class x \<noteq> TotenPunctuation"
    by (simp add: char_class_cases is_letter_class_def)
  have 2: "\<forall>x\<in>set [0x20, 0x20, 0x20 :: nat].
      \<not> is_letter_class (char_class x) \<and> char_class x \<noteq> TotenPunctuation"
    by (simp add: char_class_cases is_letter_class_def)
  have 3: "\<forall>x\<in>set
      [0x21, 0x22, 0x23, 0x24, 0x25, 0x26, 0x27, 0x28, 0x29, 0x2A, 0x2B, 0x2C,
       0x2D, 0x2E, 0x2F, 0x30, 0x31, 0x32, 0x33, 0x34, 0x35, 0x36, 0x37, 0x38,
       0x39, 0x3A, 0x3B, 0x3C, 0x3D, 0x3E, 0x3F, 0x40, 0x7B, 0x7C, 0x7D :: nat].
      \<not> is_letter_class (char_class x) \<and> char_class x \<noteq> TotenPunctuation"
    by (simp add: char_class_cases is_letter_class_def)
  have 4: "\<forall>x\<in>set ([] :: nat list).
      \<not> is_letter_class (char_class x) \<and> char_class x \<noteq> TotenPunctuation"
    by simp
  show ?thesis
    using no_letter_no_toten_scores [of "[0x3002]"] 1
      no_letter_no_toten_scores [of "[0x20, 0x20, 0x20]"] 2
      no_letter_no_toten_scores
        [of "[0x21, 0x22, 0x23, 0x24, 0x25, 0x26, 0x27, 0x28, 0x29, 0x2A, 0x2B, 0x2C,
              0x2D, 0x2E, 0x2F, 0x30, 0x31, 0x32, 0x33, 0x34, 0x35, 0x36, 0x37, 0x38,
              0x39, 0x3A, 0x3B, 0x3C, 0x3D, 0x3E, 0x3F, 0x40, 0x7B, 0x7C, 0x7D]"] 3
      no_letter_no_toten_scores [of "[]"] 4
    by blast
qed

text \<open>
  C6. For every text and each of the four letter classes, the mean run length is zero
  when the class has no run; when it has a run, the class has at least as many letters as
  runs and the mean run length is a finite number that is at least one.
\<close>

theorem mean_run_length_at_least_one:
  "length txt < 2 ^ 63 \<longrightarrow>
     (\<exists>st. Tateisi_init txt = Inr st \<and>
        (let s = scan initial txt
         in mean_run_length_ok (a s) (ar s) (la st) \<and> mean_run_length_ok (h s) (hr s) (lh st)
            \<and> mean_run_length_ok (c s) (cr s) (lc st) \<and> mean_run_length_ok (k s) (kr s) (lk st)))"
proof
  assume len: "length txt < 2 ^ 63"
  define s where "s = scan initial txt"
  from Tateisi_init_ok [OF len] obtain st
    where st: "Tateisi_init txt = Inr st" and ok: "stats_ok s st" by (auto simp add: s_def)
  have cnt: "counts_ok s" using scan_ok(1) [OF len] by (simp add: s_def)
  have m: "mean_run_length_ok n r v" if "mean_ok r v" and "0 \<le> r" and "r \<le> n" for n r v
    using that by (cases v) (auto simp add: mean_ok_def mean_run_length_ok_def)
  have "mean_run_length_ok (a s) (ar s) (la st)" "mean_run_length_ok (h s) (hr s) (lh st)"
    "mean_run_length_ok (c s) (cr s) (lc st)" "mean_run_length_ok (k s) (kr s) (lk st)"
    using ok cnt by (auto simp add: stats_ok_def counts_ok_def intro: m)
  with st show "\<exists>st. Tateisi_init txt = Inr st \<and>
        (let s = scan initial txt
         in mean_run_length_ok (a s) (ar s) (la st) \<and> mean_run_length_ok (h s) (hr s) (lh st)
            \<and> mean_run_length_ok (c s) (cr s) (lc st) \<and> mean_run_length_ok (k s) (kr s) (lk st))"
    by (auto simp add: s_def Let_def)
qed

theorem mean_run_length_at_least_one_witness:
  "\<exists>st. Tateisi_init [0x50D5, 0x306F, 0x9C3B, 0x3060, 0xFF01] = Inr st
     \<and> la st = Fin 0 \<and> lk st = Fin 0
     \<and> (case lh st of Fin q \<Rightarrow> 1 \<le> q | _ \<Rightarrow> False)
     \<and> (case lc st of Fin q \<Rightarrow> 1 \<le> q | _ \<Rightarrow> False)"
proof -
  have s: "scan initial [0x50D5, 0x306F, 0x9C3B, 0x3060, 0xFF01] =
      \<lparr>a = 0, h = 2, c = 2, k = 0, ar = 0, hr = 2, cr = 2, kr = 0, tt = 0, tk = 0,
       current_run = ''h''\<rparr>"
    by (simp add: step_def initial_def)
  have "length [0x50D5, 0x306F, 0x9C3B, 0x3060, 0xFF01 :: nat] < 2 ^ 63" by simp
  with mean_run_length_at_least_one [of "[0x50D5, 0x306F, 0x9C3B, 0x3060, 0xFF01]"]
  show ?thesis unfolding s Let_def by (auto simp add: mean_run_length_ok_def)
qed

text \<open>
  C7. The constructor never divides by zero, whatever the text: the total of the runs is
  divided by \<open>100.0\<close>, the percentages by that quotient only when it is not zero, a mean
  run length by a run count only when it is not zero, and the two last quotients by the
  kuten count or, when that is zero, by \<open>1.0\<close>. A character of no recognized range
  changes nothing. Every text (of a length a Python string can have) yields statistics.
\<close>

theorem constructor_never_fails:
  "Tateisi_init txt \<noteq> Inl ZeroDivisionError
   \<and> py_or 0 (Fin 1) = PyFloat (Fin 1)
   \<and> (char_class x = Other \<longrightarrow> step s x = s)
   \<and> (length txt < 2 ^ 63 \<longrightarrow> (\<exists>st. Tateisi_init txt = Inr st))"
proof (intro conjI impI)
  show "Tateisi_init txt \<noteq> Inl ZeroDivisionError"
    unfolding Tateisi_init_def by (rule finalize_guarded)
  show "py_or 0 (Fin 1) = PyFloat (Fin 1)" by (simp add: py_or_def)
  show "step s x = s" if "char_class x = Other"
    unfolding step_on_class that by simp
  show "\<exists>st. Tateisi_init txt = Inr st" if "length txt < 2 ^ 63"
    using Tateisi_init_ok [OF that] by blast
qed

theorem constructor_never_fails_witness:
  "(\<exists>st. Tateisi_init [] = Inr st)
   \<and> (\<exists>st. Tateisi_init [0x50D5, 0x306F, 0x9C3B, 0x3060, 0xFF01] = Inr st)
   \<and> step initial 0xFF01 = initial"
proof -
  have "length ([] :: nat list) < 2 ^ 63"
    and "length [0x50D5, 0x306F, 0x9C3B, 0x3060, 0xFF01 :: nat] < 2 ^ 63" by simp_all
  moreover have "char_class 0xFF01 = Other" by (simp add: char_class_cases)
  ultimately show ?thesis
    using constructor_never_fails [of "[]" "0xFF01" initial]
      constructor_never_fails [of "[0x50D5, 0x306F, 0x9C3B, 0x3060, 0xFF01]" "0xFF01" initial]
    by blast
qed

text \<open>
  C8. For every text (of a length a Python string can have) the constructor yields
  statistics for which both scores are finite numbers: neither an infinity nor a
  not-a-number.
\<close>

theorem scores_are_finite:
  "length txt < 2 ^ 63 \<longrightarrow>
     (\<exists>st x y. Tateisi_init txt = Inr st
        \<and> calculate_rs_tateisi_a st = Fin x \<and> calculate_rs_tateisi_b st = Fin y)"
proof
  assume len: "length txt < 2 ^ 63"
  from Tateisi_init_ok [OF len] obtain st
    where st: "Tateisi_init txt = Inr st" and ok: "stats_ok (scan initial txt) st" by blast
  have "fbounded 95 (calculate_rs_tateisi_a st)" and "fbounded 87 (calculate_rs_tateisi_b st)"
    using ok scan_ok(1) [OF len] by (rule stats_bounded)+
  then obtain x y where "calculate_rs_tateisi_a st = Fin x" and "calculate_rs_tateisi_b st = Fin y"
    by (auto elim!: fboundedE)
  with st show "\<exists>st x y. Tateisi_init txt = Inr st
        \<and> calculate_rs_tateisi_a st = Fin x \<and> calculate_rs_tateisi_b st = Fin y"
    by blast
qed

theorem scores_are_finite_witness:
  "(\<exists>st x y. Tateisi_init [0x21, 0x3F, 0x3002, 0x3001] = Inr st
        \<and> calculate_rs_tateisi_a st = Fin x \<and> calculate_rs_tateisi_b st = Fin y)
   \<and> (\<exists>st x y. Tateisi_init (replicate 1000 0x61) = Inr st
        \<and> calculate_rs_tateisi_a st = Fin x \<and> calculate_rs_tateisi_b st = Fin y)"
proof -
  have "length [0x21, 0x3F, 0x3002, 0x3001 :: nat] < 2 ^ 63"
    and "length (replicate 1000 (0x61 :: nat)) < 2 ^ 63" by simp_all
  then show ?thesis
    using scores_are_finite [of "[0x21, 0x3F, 0x3002, 0x3001]"]
      scores_are_finite [of "replicate 1000 0x61"]
    by blast
qed

end
